theory Spec2Isabelle
  imports Complex_Main "HOL-Library.Word"
begin

unbundle bit_operations_syntax

section \<open>JavaScript strings\<close>

text \<open>
  A JavaScript string is a sequence of 16-bit code units; a \<open>Uint8Array\<close> is a sequence
  of bytes. String literals of the source are written \<open>str ''...''\<close>.
\<close>

type_synonym jschar = "16 word"
type_synonym jsstr = "16 word list"
type_synonym byte = "8 word"

definition str :: "string \<Rightarrow> jsstr" where
  "str s = map of_char s"

abbreviation NL :: jschar where "NL \<equiv> 0x0A"
abbreviation CR :: jschar where "CR \<equiv> 0x0D"

text \<open>
  The characters removed by \<open>String.prototype.trim\<close> and matched by the regular
  expression class \<open>\s\<close>: ECMAScript WhiteSpace and LineTerminator.
\<close>

definition isWhiteSpace :: "jschar \<Rightarrow> bool" where
  "isWhiteSpace c =
     (c = 0x09 \<or> c = 0x0A \<or> c = 0x0B \<or> c = 0x0C \<or> c = 0x0D \<or> c = 0x20 \<or> c = 0xA0
      \<or> c = 0x1680 \<or> (0x2000 \<le> c \<and> c \<le> 0x200A) \<or> c = 0x2028 \<or> c = 0x2029
      \<or> c = 0x202F \<or> c = 0x205F \<or> c = 0x3000 \<or> c = 0xFEFF)"

definition trimStart :: "jsstr \<Rightarrow> jsstr" where
  "trimStart s = dropWhile isWhiteSpace s"

definition trim :: "jsstr \<Rightarrow> jsstr" where
  "trim s = rev (dropWhile isWhiteSpace (rev (dropWhile isWhiteSpace s)))"

definition startsWith :: "jsstr \<Rightarrow> jsstr \<Rightarrow> bool" where
  "startsWith s p = (take (length p) s = p)"

text \<open>\<open>s.split(c)\<close> for a one-character separator: never empty, \<open>''.split(c) = ['']\<close>.\<close>

fun split_on :: "jschar \<Rightarrow> jsstr \<Rightarrow> jsstr list" where
  "split_on c [] = [[]]"
| "split_on c (x # xs) =
     (if x = c then [] # split_on c xs
      else case split_on c xs of [] \<Rightarrow> [[x]] | l # ls \<Rightarrow> (x # l) # ls)"

text \<open>\<open>a.join(c)\<close>.\<close>

fun join :: "jschar \<Rightarrow> jsstr list \<Rightarrow> jsstr" where
  "join c [] = []"
| "join c [x] = x"
| "join c (x # y # r) = x @ [c] @ join c (y # r)"

definition isDigit :: "jschar \<Rightarrow> bool" where
  "isDigit c = (0x30 \<le> c \<and> c \<le> 0x39)"

text \<open>The test \<open>/^\d+$/.test(s)\<close>: one or more ASCII digits and nothing else.\<close>

definition digitsOnly :: "jsstr \<Rightarrow> bool" where
  "digitsOnly s = (s \<noteq> [] \<and> list_all isDigit s)"

section \<open>parseCAM\<close>

record CamData =
  ranking :: "jsstr option"
  objective :: jsstr
  spyInfo :: jsstr
  description :: jsstr

datatype Section = S_NONE | S_RANKING | S_OBJECTIVE | S_SPYINFO | S_DESCRIPTION

text \<open>The body of the loop \<open>for (const line of lines)\<close>: the state is the variable
  \<open>section\<close> and the record \<open>data\<close>; every \<open>continue\<close> returns the state.\<close>

definition camLine :: "Section \<times> CamData \<Rightarrow> jsstr \<Rightarrow> Section \<times> CamData" where
  "camLine sd line =
     (let section = fst sd; data = snd sd; trim' = trim line in
      if trim' = str ''OBJECTIVE_BEGIN'' then (S_OBJECTIVE, data)
      else if trim' = str ''OBJECTIVE_END'' then (S_NONE, data)
      else if trim' = str ''SPYINFO_BEGIN'' then (S_SPYINFO, data)
      else if trim' = str ''SPYINFO_END'' then (S_NONE, data)
      else if trim' = str ''DESCRIPTION_BEGIN'' then (S_DESCRIPTION, data)
      else if trim' = str ''DESCRIPTION_END'' then (S_NONE, data)
      else if trim' = str ''CAMPAIGN_RANKING'' then (S_RANKING, data)
      else if section = S_RANKING \<and> trim' \<noteq> [] then
        (S_NONE, data\<lparr>ranking := Some trim'\<rparr>)
      else if section = S_OBJECTIVE then
        (if objective data = [] \<and> digitsOnly trim' then (section, data)
         else (section, data\<lparr>objective := objective data @ line @ [NL]\<rparr>))
      else if section = S_SPYINFO then
        (if spyInfo data = [] \<and> digitsOnly trim' then (section, data)
         else if startsWith trim' (str ''PI4'') then (section, data)
         else (section, data\<lparr>spyInfo := spyInfo data @ line @ [NL]\<rparr>))
      else if section = S_DESCRIPTION then
        (if description data = [] \<and> digitsOnly trim' then (section, data)
         else (section, data\<lparr>description := description data @ line @ [NL]\<rparr>))
      else (section, data))"

definition camInit :: CamData where
  "camInit = \<lparr>ranking = None, objective = [], spyInfo = [], description = []\<rparr>"

definition camLines :: "jsstr \<Rightarrow> jsstr list" where
  "camLines content =
     split_on NL (filter (\<lambda>c. c \<noteq> CR) (map (\<lambda>c. if c = 0xFFFD then 0x27 else c) content))"

definition parseCAM :: "jsstr \<Rightarrow> CamData" where
  "parseCAM content = snd (foldl camLine (S_NONE, camInit) (camLines content))"

section \<open>parseLFL\<close>

datatype error = TypeError

text \<open>
  \<open>const [key, ...values] = line.split(':')\<close> followed by \<open>key.trim()\<close> throws a
  TypeError when the array is empty (\<open>key\<close> is then undefined). Assigning a string to the
  key \<open>__proto__\<close> of an object literal stores nothing.
\<close>

definition lflLine :: "(jsstr \<rightharpoonup> jsstr) \<Rightarrow> jsstr \<Rightarrow> error + (jsstr \<rightharpoonup> jsstr)" where
  "lflLine config line =
     (if startsWith (trim line) (str ''#'') \<or> 0x3A \<notin> set line then Inr config
      else case split_on 0x3A line of
             [] \<Rightarrow> Inl TypeError
           | key # values \<Rightarrow>
               if trim key = str ''__proto__'' then Inr config
               else Inr (config(trim key \<mapsto> trim (join 0x3A values))))"

fun lflLoop :: "(jsstr \<rightharpoonup> jsstr) \<Rightarrow> jsstr list \<Rightarrow> error + (jsstr \<rightharpoonup> jsstr)" where
  "lflLoop config [] = Inr config"
| "lflLoop config (line # lines) =
     (case lflLine config line of Inl e \<Rightarrow> Inl e | Inr config' \<Rightarrow> lflLoop config' lines)"

definition parseLFL :: "jsstr \<Rightarrow> error + (jsstr \<rightharpoonup> jsstr)" where
  "parseLFL content = lflLoop Map.empty (split_on NL content)"

section \<open>Numbers\<close>

text \<open>
  \<open>parseInt\<close> returns NaN or the double nearest to an integer: \<open>int option\<close>, with
  \<open>None\<close> for NaN. The integer is kept exactly; it is the double itself up to
  \<open>2 ^ 53\<close>. With no radix argument a prefix \<open>0x\<close> selects base 16. An argument that is
  \<open>undefined\<close> (an array read out of range) is converted to the string "undefined" and
  gives NaN.
\<close>

definition isHexDigit :: "jschar \<Rightarrow> bool" where
  "isHexDigit c = (isDigit c \<or> (0x41 \<le> c \<and> c \<le> 0x46) \<or> (0x61 \<le> c \<and> c \<le> 0x66))"

definition digitVal :: "jschar \<Rightarrow> nat" where
  "digitVal c =
     (if isDigit c then unat c - 0x30
      else if 0x41 \<le> c \<and> c \<le> 0x46 then unat c - 0x41 + 10
      else unat c - 0x61 + 10)"

definition radixVal :: "nat \<Rightarrow> jsstr \<Rightarrow> nat" where
  "radixVal r ds = foldl (\<lambda>a c. r * a + digitVal c) 0 ds"

definition stripSign :: "jsstr \<Rightarrow> jsstr" where
  "stripSign t = (if startsWith t (str ''-'') \<or> startsWith t (str ''+'') then tl t else t)"

definition parseInt :: "jsstr option \<Rightarrow> int option" where
  "parseInt arg =
     (case arg of
        None \<Rightarrow> None
      | Some s \<Rightarrow>
          let t = trimStart s;
              neg = startsWith t (str ''-'');
              u = stripSign t;
              hex = (startsWith u (str ''0x'') \<or> startsWith u (str ''0X''));
              ds = (if hex then takeWhile isHexDigit (drop 2 u) else takeWhile isDigit u);
              v = int (radixVal (if hex then 16 else 10) ds)
          in if ds = [] then None else Some (if neg then - v else v))"

text \<open>
  \<open>parseFloat\<close> reads the longest prefix that is a decimal literal. The model keeps
  the exact decimal value of that literal in \<open>Num\<close>, where JavaScript keeps the double
  nearest to it; whether the result is NaN does not depend on the rounding.
\<close>

datatype jsnum = NaN | PosInf | NegInf | Num rat

definition exponentPart :: "jsstr \<Rightarrow> int" where
  "exponentPart r =
     (if startsWith r (str ''e'') \<or> startsWith r (str ''E'') then
        (let ds = takeWhile isDigit (stripSign (tl r)) in
         if ds = [] then 0
         else if startsWith (tl r) (str ''-'') then - int (radixVal 10 ds)
         else int (radixVal 10 ds))
      else 0)"

definition parseFloat :: "jsstr option \<Rightarrow> jsnum" where
  "parseFloat arg =
     (case arg of
        None \<Rightarrow> NaN
      | Some s \<Rightarrow>
          let t = trimStart s;
              neg = startsWith t (str ''-'');
              u = stripSign t;
              ip = takeWhile isDigit u;
              r1 = dropWhile isDigit u;
              dot = startsWith r1 (str ''.'');
              fp = (if dot then takeWhile isDigit (tl r1) else []);
              r2 = (if dot then dropWhile isDigit (tl r1) else r1);
              m = of_nat (radixVal 10 ip) + of_nat (radixVal 10 fp) / 10 ^ length fp;
              e = exponentPart r2;
              v = (if 0 \<le> e then m * 10 ^ nat e else m / 10 ^ nat (- e))
          in if startsWith u (str ''Infinity'') then (if neg then NegInf else PosInf)
             else if ip = [] \<and> fp = [] then NaN
             else Num (if neg then - v else v))"

definition isNaN :: "jsnum \<Rightarrow> bool" where
  "isNaN v = (v = NaN)"

text \<open>\<open>v || 0\<close>: NaN and zero are the falsy numbers.\<close>

definition orZero :: "jsnum \<Rightarrow> jsnum" where
  "orZero v = (if v = NaN \<or> v = Num 0 then Num 0 else v)"

text \<open>Number to string, as in the template literals, of a \<open>parseInt\<close> result: the
  decimal digits of the integer, which is what JavaScript prints below \<open>2 ^ 53\<close>.\<close>

fun decdigits :: "nat \<Rightarrow> jsstr" where
  "decdigits n =
     (if n < 10 then [of_nat (0x30 + n)]
      else decdigits (n div 10) @ [of_nat (0x30 + n mod 10)])"

definition numToString :: "int option \<Rightarrow> jsstr" where
  "numToString v =
     (case v of
        None \<Rightarrow> str ''NaN''
      | Some n \<Rightarrow> if n < 0 then str ''-'' @ decdigits (nat (- n)) else decdigits (nat n))"

text \<open>\<open>count--\<close> and \<open>count <= 0\<close> on a \<open>parseInt\<close> result.\<close>

definition decrement :: "int option \<Rightarrow> int option" where
  "decrement c = map_option (\<lambda>n. n - 1) c"

definition leZero :: "int option \<Rightarrow> bool" where
  "leZero c = (case c of None \<Rightarrow> False | Some n \<Rightarrow> n \<le> 0)"

section \<open>More string operations\<close>

text \<open>\<open>s.split(/\s+/)\<close>: the pieces between maximal runs of white space.\<close>

function split_ws :: "jsstr \<Rightarrow> jsstr list" where
  "split_ws s =
     (let tok = takeWhile (\<lambda>c. \<not> isWhiteSpace c) s;
          r = dropWhile (\<lambda>c. \<not> isWhiteSpace c) s
      in if r = [] then [tok] else tok # split_ws (dropWhile isWhiteSpace r))"
  by pat_completeness auto
termination
proof (relation "measure length")
  fix s :: jsstr and tok r
  assume r: "r = dropWhile (\<lambda>c. \<not> isWhiteSpace c) s" and ne: "r \<noteq> []"
  then have "isWhiteSpace (hd r)"
    using hd_dropWhile [of "\<lambda>c. \<not> isWhiteSpace c" s] by simp
  with ne have "length (dropWhile isWhiteSpace r) < length r"
    by (cases r) (simp_all add: less_Suc_eq_le length_dropWhile_le)
  moreover have "length r \<le> length s"
    using r by (simp add: length_dropWhile_le)
  ultimately show "(dropWhile isWhiteSpace r, s) \<in> measure length"
    by simp
qed simp

declare split_ws.simps [simp del]

text \<open>An array read \<open>parts[i]\<close>: \<open>None\<close> is \<open>undefined\<close>.\<close>

definition elemAt :: "'a list \<Rightarrow> nat \<Rightarrow> 'a option" where
  "elemAt xs i = (if i < length xs then Some (xs ! i) else None)"

text \<open>\<open>s.indexOf(p, pos)\<close>: \<open>None\<close> is the result \<open>-1\<close>.\<close>

fun findSub :: "jsstr \<Rightarrow> jsstr \<Rightarrow> nat \<Rightarrow> nat option" where
  "findSub p [] i = (if p = [] then Some i else None)"
| "findSub p (x # xs) i = (if startsWith (x # xs) p then Some i else findSub p xs (Suc i))"

definition indexOf :: "jsstr \<Rightarrow> jsstr \<Rightarrow> nat \<Rightarrow> nat option" where
  "indexOf s p pos = (let start = min pos (length s) in findSub p (drop start s) start)"

section \<open>TextDecoder\<close>

text \<open>
  \<open>new TextDecoder().decode(bytes)\<close>: the UTF-8 decoder of the Encoding standard, not
  fatal, so every malformed sequence becomes U+FFFD; a leading byte order mark is dropped;
  code points from U+10000 become a surrogate pair. The decoder's state is the number of
  continuation bytes still needed, the code point so far, and the bounds of the next byte.
\<close>

function utf8 :: "nat \<Rightarrow> nat \<Rightarrow> byte \<Rightarrow> byte \<Rightarrow> byte list \<Rightarrow> nat list" where
  "utf8 needed cp lo hi [] = (if needed = 0 then [] else [0xFFFD])"
| "utf8 needed cp lo hi (b # bs) =
     (if needed = 0 then
        (if b \<le> 0x7F then unat b # utf8 0 0 0x80 0xBF bs
         else if 0xC2 \<le> b \<and> b \<le> 0xDF then utf8 1 (unat (b AND 0x1F)) 0x80 0xBF bs
         else if 0xE0 \<le> b \<and> b \<le> 0xEF then
           utf8 2 (unat (b AND 0x0F)) (if b = 0xE0 then 0xA0 else 0x80)
             (if b = 0xED then 0x9F else 0xBF) bs
         else if 0xF0 \<le> b \<and> b \<le> 0xF4 then
           utf8 3 (unat (b AND 0x07)) (if b = 0xF0 then 0x90 else 0x80)
             (if b = 0xF4 then 0x8F else 0xBF) bs
         else 0xFFFD # utf8 0 0 0x80 0xBF bs)
      else if b < lo \<or> hi < b then 0xFFFD # utf8 0 0 0x80 0xBF (b # bs)
      else if needed = 1 then (cp * 64 + unat (b AND 0x3F)) # utf8 0 0 0x80 0xBF bs
      else utf8 (needed - 1) (cp * 64 + unat (b AND 0x3F)) 0x80 0xBF bs)"
  by pat_completeness auto
termination
  by (relation "measure (\<lambda>(needed, cp, lo, hi, bs). 2 * length bs + (if needed = 0 then 0 else 1))")
    auto

declare utf8.simps [simp del]

definition utf16 :: "nat \<Rightarrow> jsstr" where
  "utf16 cp =
     (if cp < 0x10000 then [of_nat cp]
      else [of_nat (0xD800 + (cp - 0x10000) div 0x400), of_nat (0xDC00 + (cp - 0x10000) mod 0x400)])"

definition decode :: "byte list \<Rightarrow> jsstr" where
  "decode bytes =
     concat (map utf16
       (utf8 0 0 0x80 0xBF (if take 3 bytes = [0xEF, 0xBB, 0xBF] then drop 3 bytes else bytes)))"

section \<open>parseSLK\<close>

record LevelObject =
  obj_type :: jsstr
  obj_x :: jsnum
  obj_y :: jsnum
  obj_z :: jsnum
  rotation :: jsnum
  modelName :: "jsstr option"

subsection \<open>The model names of the header\<close>

text \<open>
  The match of \<open>/^models[\\\/](.+?)\.sdf\s+(\d+)$/i\<close> on a trimmed line: the name is the
  shortest non-empty run of characters other than line terminators after which the rest
  of the line is \<open>.sdf\<close>, white space and digits. The result is the two groups.
\<close>

definition lower :: "jschar \<Rightarrow> jschar" where
  "lower c = (if 0x41 \<le> c \<and> c \<le> 0x5A then c + 0x20 else c)"

definition startsWithCI :: "jsstr \<Rightarrow> jsstr \<Rightarrow> bool" where
  "startsWithCI s p = (map lower (take (length p) s) = p)"

definition isLineTerminator :: "jschar \<Rightarrow> bool" where
  "isLineTerminator c = (c = 0x0A \<or> c = 0x0D \<or> c = 0x2028 \<or> c = 0x2029)"

definition sdfTail :: "jsstr \<Rightarrow> bool" where
  "sdfTail t =
     (startsWithCI t (str ''.sdf'') \<and> takeWhile isWhiteSpace (drop 4 t) \<noteq> []
      \<and> digitsOnly (dropWhile isWhiteSpace (drop 4 t)))"

fun nameScan :: "jsstr \<Rightarrow> jsstr \<Rightarrow> (jsstr \<times> jsstr) option" where
  "nameScan acc [] = None"
| "nameScan acc (c # r) =
     (if isLineTerminator c then None
      else if sdfTail r then Some (rev (c # acc), dropWhile isWhiteSpace (drop 4 r))
      else nameScan (c # acc) r)"

definition modelMatch :: "jsstr \<Rightarrow> (jsstr \<times> jsstr) option" where
  "modelMatch line =
     (if startsWithCI line (str ''models'')
         \<and> (startsWith (drop 6 line) (str ''/'') \<or> startsWith (drop 6 line) [0x5C])
      then nameScan [] (drop 7 line) else None)"

definition modelLine :: "(int option \<rightharpoonup> jsstr) \<Rightarrow> jsstr \<Rightarrow> (int option \<rightharpoonup> jsstr)" where
  "modelLine modelIdToName line =
     (case modelMatch (trim line) of
        None \<Rightarrow> modelIdToName
      | Some (name, digits) \<Rightarrow> modelIdToName(parseInt (Some digits) \<mapsto> name))"

subsection \<open>The dimension line and the offset of the binary block\<close>

definition isDimLine :: "jsstr \<Rightarrow> bool" where
  "isDimLine l =
     (let parts = split_ws (trim l)
      in length parts = 3 \<and> parts ! 0 = str ''256'' \<and> parts ! 1 = str ''256'')"

text \<open>The first loop over \<open>lines\<close>: \<open>None\<close> leaves \<open>textureListStart\<close> at \<open>-1\<close>,
  \<open>Some textureCount\<close> is the \<open>break\<close>.\<close>

fun findDim :: "jsstr list \<Rightarrow> int option option" where
  "findDim [] = None"
| "findDim (l # ls) =
     (if isDimLine l then Some (parseInt (elemAt (split_ws (trim l)) 2)) else findDim ls)"

text \<open>The loop \<open>for (let i = 0; i < textureCount; i++)\<close> with its \<open>break\<close>.\<close>

fun skipLines :: "nat \<Rightarrow> jsstr \<Rightarrow> nat \<Rightarrow> nat" where
  "skipLines 0 headerText pos = pos"
| "skipLines (Suc n) headerText pos =
     (case indexOf headerText [NL] pos of
        None \<Rightarrow> pos
      | Some nextLine \<Rightarrow> skipLines n headerText (nextLine + 1))"

definition dimString :: "int option \<Rightarrow> jsstr" where
  "dimString textureCount = str ''256 256 '' @ numToString textureCount"

text \<open>\<open>binaryOffset\<close>; \<open>None\<close> is \<open>-1\<close>. \<open>indexOf\<close> answering \<open>-1\<close> for the line
  terminator makes \<open>pos\<close> zero.\<close>

definition locateBinary :: "jsstr \<Rightarrow> nat option" where
  "locateBinary headerText =
     (case findDim (split_on NL headerText) of
        None \<Rightarrow> None
      | Some textureCount \<Rightarrow>
          (case indexOf headerText (dimString textureCount) 0 of
             None \<Rightarrow> None
           | Some dimOffset \<Rightarrow>
               Some (skipLines (case textureCount of None \<Rightarrow> 0 | Some n \<Rightarrow> nat n) headerText
                  (case indexOf headerText [NL] dimOffset of None \<Rightarrow> 0 | Some k \<Rightarrow> k + 1))))"

subsection \<open>The binary block\<close>

type_synonym grid = "16 word list"

definition zeroGrid :: grid where
  "zeroGrid = replicate (256 * 256) 0"

definition le16 :: "byte \<Rightarrow> byte \<Rightarrow> 16 word" where
  "le16 b0 b1 = ucast b0 OR push_bit 8 (ucast b1)"

definition extractTextureIndices :: "byte list \<Rightarrow> nat \<Rightarrow> grid" where
  "extractTextureIndices buffer binaryOffset =
     foldl (\<lambda>ts i.
              let recordOffset = binaryOffset + i * 6
              in if recordOffset + 2 \<le> length buffer
                 then ts[i := le16 (buffer ! recordOffset) (buffer ! (recordOffset + 1))]
                 else ts)
       zeroGrid [0..<256 * 256]"

text \<open>The loop over \<open>col\<close> for one \<open>row\<close>, then the loop over \<open>row\<close>.\<close>

definition heightRow :: "byte list \<Rightarrow> nat \<Rightarrow> nat \<Rightarrow> grid \<Rightarrow> grid" where
  "heightRow buffer binaryOffset row hs0 =
     foldl (\<lambda>hs col.
              let srcIdx = binaryOffset + 5 * 65536 + row * 257 + col;
                  dstIdx = row * 256 + col
              in if srcIdx < length buffer then hs[dstIdx := ucast (buffer ! srcIdx)]
                 else hs)
       hs0 [0..<256]"

definition extractHeights :: "byte list \<Rightarrow> nat \<Rightarrow> grid" where
  "extractHeights buffer binaryOffset =
     foldl (\<lambda>hs row. heightRow buffer binaryOffset row hs) zeroGrid [0..<256]"

subsection \<open>The footer\<close>

datatype Mode = M_NONE | SLOTS | CITADEL_BLOCK | CITADEL_UPGRADES | OBJECTS

record Citadel =
  base :: "LevelObject option"
  upgrades :: "LevelObject list"

text \<open>The arrays \<open>objects\<close> and \<open>citadels\<close> are both part of the state of the footer
  loop and fields of the result.\<close>

record Emitted =
  objects :: "LevelObject list"
  citadels :: "LevelObject list"

record FooterState = Emitted +
  mode :: Mode
  count :: "int option"
  currentCitadel :: "Citadel option"

definition footerInit :: FooterState where
  "footerInit = \<lparr>objects = [], citadels = [], mode = M_NONE, count = Some 0, currentCitadel = None\<rparr>"

definition placed :: "jsstr \<Rightarrow> jsnum \<Rightarrow> jsnum \<Rightarrow> jsnum \<Rightarrow> LevelObject" where
  "placed t x z rot =
     \<lparr>obj_type = t, obj_x = x, obj_y = Num 0, obj_z = z, rotation = rot, modelName = None\<rparr>"

text \<open>\<open>if (currentCitadel && currentCitadel.base) { citadels.push(...); objects.push(...) }\<close>\<close>

definition flush :: "FooterState \<Rightarrow> FooterState" where
  "flush st =
     (case currentCitadel st of
        None \<Rightarrow> st
      | Some c \<Rightarrow>
          (case base c of
             None \<Rightarrow> st
           | Some b \<Rightarrow> st\<lparr>objects := objects st @ upgrades c, citadels := citadels st @ [b]\<rparr>))"

definition slotsLine :: "FooterState \<Rightarrow> jsstr list \<Rightarrow> FooterState" where
  "slotsLine st parts =
     (let x = parseFloat (elemAt parts 0);
          z = parseFloat (elemAt parts 1);
          rot = orZero (parseFloat (elemAt parts 2));
          st1 = (if 2 \<le> length parts \<and> \<not> isNaN x
                 then st\<lparr>objects := objects st @ [placed (str ''SLOT'') x z rot],
                         count := decrement (count st)\<rparr>
                 else st)
      in if leZero (count st1) then st1\<lparr>mode := M_NONE\<rparr> else st1)"

definition citadelBlockLine :: "FooterState \<Rightarrow> jsstr \<Rightarrow> jsstr list \<Rightarrow> FooterState" where
  "citadelBlockLine st line parts =
     (if startsWith line (str ''base '') then
        (case currentCitadel st of
           None \<Rightarrow> st
         | Some c \<Rightarrow>
             st\<lparr>currentCitadel :=
                  Some (c\<lparr>base := Some (placed (str ''CITADEL_BASE'')
                     (parseFloat (elemAt parts 1)) (parseFloat (elemAt parts 2))
                     (orZero (parseFloat (elemAt parts 3))))\<rparr>)\<rparr>)
      else if startsWith line (str ''upgrades '') then
        st\<lparr>mode := CITADEL_UPGRADES, count := parseInt (elemAt parts 1)\<rparr>
      else if startsWith line (str ''citadel '') then
        (flush st)\<lparr>currentCitadel := Some \<lparr>base = None, upgrades = []\<rparr>\<rparr>
      else if startsWith line (str ''objects '') then
        (flush st)\<lparr>mode := OBJECTS, count := parseInt (elemAt parts 1)\<rparr>
      else st)"

definition upgradesLine :: "FooterState \<Rightarrow> jsstr list \<Rightarrow> FooterState" where
  "upgradesLine st parts =
     (let x = parseFloat (elemAt parts 0);
          z = parseFloat (elemAt parts 1);
          rot = orZero (parseFloat (elemAt parts 2));
          st1 = (case currentCitadel st of
                   None \<Rightarrow> st
                 | Some c \<Rightarrow>
                     if 3 \<le> length parts \<and> \<not> isNaN x
                     then st\<lparr>currentCitadel :=
                               Some (c\<lparr>upgrades := upgrades c @ [placed (str ''CITADEL_UPGRADE'') x z rot]\<rparr>),
                             count := decrement (count st)\<rparr>
                     else st)
      in if leZero (count st1) then st1\<lparr>mode := CITADEL_BLOCK\<rparr> else st1)"

text \<open>\<open>modelIdToName[id] || `Unknown_${id}`\<close>\<close>

definition nameOf :: "(int option \<rightharpoonup> jsstr) \<Rightarrow> int option \<Rightarrow> jsstr" where
  "nameOf modelIdToName id' =
     (case modelIdToName id' of
        None \<Rightarrow> str ''Unknown_'' @ numToString id'
      | Some n \<Rightarrow> if n = [] then str ''Unknown_'' @ numToString id' else n)"

definition objectsLine :: "(int option \<rightharpoonup> jsstr) \<Rightarrow> FooterState \<Rightarrow> jsstr list \<Rightarrow> FooterState" where
  "objectsLine modelIdToName st parts =
     (let id' = parseInt (elemAt parts 0);
          x = parseFloat (elemAt parts 2);
          z = parseFloat (elemAt parts 3);
          y = parseFloat (elemAt parts 4);
          rot = orZero (parseFloat (elemAt parts 5));
          st1 = (if 6 \<le> length parts \<and> \<not> isNaN x
                 then st\<lparr>objects := objects st @
                           [\<lparr>obj_type = str ''OBJ_'' @ numToString id', obj_x = x, obj_y = y,
                             obj_z = z, rotation = rot,
                             modelName = Some (nameOf modelIdToName id')\<rparr>],
                         count := decrement (count st)\<rparr>
                 else st)
      in if leZero (count st1) then st1\<lparr>mode := M_NONE\<rparr> else st1)"

text \<open>The body of the loop over \<open>footerLines\<close>. A line that matches no test of its mode
  reaches the end of the body with the state unchanged.\<close>

definition footerLine :: "(int option \<rightharpoonup> jsstr) \<Rightarrow> FooterState \<Rightarrow> jsstr \<Rightarrow> FooterState" where
  "footerLine modelIdToName st raw =
     (let line = trim raw; parts = split_ws line in
      if line = [] \<or> startsWith line (str ''#'') then st
      else if mode st = M_NONE \<and> startsWith line (str ''slots '') then
        st\<lparr>mode := SLOTS, count := parseInt (elemAt parts 1)\<rparr>
      else if mode st = M_NONE \<and> startsWith line (str ''citadel '') then
        st\<lparr>mode := CITADEL_BLOCK, currentCitadel := Some \<lparr>base = None, upgrades = []\<rparr>\<rparr>
      else if mode st = M_NONE \<and> startsWith line (str ''objects '') then
        st\<lparr>mode := OBJECTS, count := parseInt (elemAt parts 1)\<rparr>
      else case mode st of
             M_NONE \<Rightarrow> st
           | SLOTS \<Rightarrow> slotsLine st parts
           | CITADEL_BLOCK \<Rightarrow> citadelBlockLine st line parts
           | CITADEL_UPGRADES \<Rightarrow> upgradesLine st parts
           | OBJECTS \<Rightarrow> objectsLine modelIdToName st parts)"

definition parseFooter :: "(int option \<rightharpoonup> jsstr) \<Rightarrow> jsstr \<Rightarrow> FooterState" where
  "parseFooter modelIdToName footerText =
     flush (foldl (footerLine modelIdToName) footerInit (split_on NL footerText))"

subsection \<open>The whole decoder\<close>

text \<open>The calls of \<open>console.log\<close> do not change the result and are left out.\<close>

record SlkResult = Emitted +
  terrain :: "jsstr list"
  textureIndices :: grid
  heights :: grid

definition headerText :: "byte list \<Rightarrow> jsstr" where
  "headerText buffer = decode (take 50000 buffer)"

definition modelNames :: "byte list \<Rightarrow> (int option \<rightharpoonup> jsstr)" where
  "modelNames buffer = foldl modelLine Map.empty (split_on NL (headerText buffer))"

definition parseSLK :: "byte list \<Rightarrow> SlkResult" where
  "parseSLK buffer =
     (case locateBinary (headerText buffer) of
        None \<Rightarrow>
          \<lparr>objects = [], citadels = [], terrain = [], textureIndices = zeroGrid, heights = zeroGrid\<rparr>
      | Some binaryOffset \<Rightarrow>
          (let footerStart = binaryOffset + 256 * 256 * 6;
               st = (if footerStart < length buffer
                     then parseFooter (modelNames buffer) (decode (drop footerStart buffer))
                     else footerInit)
           in \<lparr>objects = objects st, citadels = citadels st, terrain = [],
               textureIndices = extractTextureIndices buffer binaryOffset,
               heights = extractHeights buffer binaryOffset\<rparr>))"

section \<open>parseDPH\<close>

text \<open>The result is the array \<open>heights\<close> of the object that \<open>parseDPH\<close> returns.\<close>

definition parseDPH :: "byte list \<Rightarrow> grid" where
  "parseDPH buffer =
     foldl (\<lambda>hs i.
              let offset = i * 2
              in if offset + 1 < length buffer
                 then hs[i := le16 (buffer ! offset) (buffer ! (offset + 1))]
                 else hs)
       zeroGrid [0..<256 * 256]"

section \<open>Inputs and notions used in the statements\<close>

text \<open>Bytes of an ASCII text, and a text made of lines that each end with a line feed.\<close>

definition ascii :: "string \<Rightarrow> byte list" where
  "ascii s = map of_char s"

definition lines_of :: "jsstr list \<Rightarrow> jsstr" where
  "lines_of ls = concat (map (\<lambda>l. l @ [NL]) ls)"

text \<open>The result of \<open>parseSLK\<close> when no binary block is located.\<close>

definition slkDefault :: SlkResult where
  "slkDefault = \<lparr>objects = [], citadels = [], terrain = [],
     textureIndices = zeroGrid, heights = zeroGrid\<rparr>"

text \<open>Cell \<open>i\<close> of a grid is not covered by input bytes: no binary block was located, or
  the bytes that the cell is read from lie beyond the end of the buffer.\<close>

definition textureUncovered :: "byte list \<Rightarrow> nat \<Rightarrow> bool" where
  "textureUncovered buffer i =
     (case locateBinary (headerText buffer) of
        None \<Rightarrow> True
      | Some binaryOffset \<Rightarrow> length buffer < binaryOffset + i * 6 + 2)"

definition heightUncovered :: "byte list \<Rightarrow> nat \<Rightarrow> bool" where
  "heightUncovered buffer i =
     (case locateBinary (headerText buffer) of
        None \<Rightarrow> True
      | Some binaryOffset \<Rightarrow>
          length buffer \<le> binaryOffset + 5 * 65536 + (i div 256) * 257 + i mod 256)"

text \<open>The token that a counted section reads the \<open>x\<close> coordinate from.\<close>

definition xToken :: "Mode \<Rightarrow> jsstr list \<Rightarrow> jsstr option" where
  "xToken m parts = (if m = OBJECTS then elemAt parts 2 else elemAt parts 0)"

text \<open>The section markers of the narrative text.\<close>

definition markers :: "jsstr list" where
  "markers = [str ''OBJECTIVE_BEGIN'', str ''OBJECTIVE_END'', str ''SPYINFO_BEGIN'',
     str ''SPYINFO_END'', str ''DESCRIPTION_BEGIN'', str ''DESCRIPTION_END'',
     str ''CAMPAIGN_RANKING'']"

text \<open>
  What the loop of \<open>parseCAM\<close> maintains. A line of the input has no line feed, no
  carriage return and no replacement character. A multi-line field is made of such lines,
  each followed by a line feed, none of them a marker, the first one not a number. The
  ranking is a trimmed, non-empty line that is not a marker.
\<close>

definition rawOk :: "jsstr \<Rightarrow> bool" where
  "rawOk l = (NL \<notin> set l \<and> CR \<notin> set l \<and> 0xFFFD \<notin> set l)"

definition notPI4 :: "jsstr \<Rightarrow> bool" where
  "notPI4 l = (\<not> startsWith (trim l) (str ''PI4''))"

definition fieldInv :: "(jsstr \<Rightarrow> bool) \<Rightarrow> jsstr \<Rightarrow> bool" where
  "fieldInv P f =
     (\<exists>ls. f = lines_of ls \<and> (\<forall>l\<in>set ls. rawOk l \<and> trim l \<notin> set markers \<and> P l)
        \<and> (ls \<noteq> [] \<longrightarrow> \<not> digitsOnly (trim (hd ls))))"

definition rankOk :: "jsstr \<Rightarrow> bool" where
  "rankOk r = (r \<noteq> [] \<and> trim r = r \<and> rawOk r \<and> r \<notin> set markers)"

definition camInv :: "CamData \<Rightarrow> bool" where
  "camInv d =
     (fieldInv (\<lambda>l. True) (objective d) \<and> fieldInv notPI4 (spyInfo d)
      \<and> fieldInv (\<lambda>l. True) (description d)
      \<and> (case ranking d of None \<Rightarrow> True | Some r \<Rightarrow> rankOk r))"

text \<open>
  Following the words of the specification. The dimension line is the first line whose
  tokens are \<open>256\<close>, \<open>256\<close> and a count; the offset of the binary block is the position
  of that line, advanced past its line terminator and then past exactly \<open>N\<close> further
  complete lines. A line is complete when a line feed ends it, which all lines of the
  split text but the last are. There is no such position (\<open>None\<close>) when there is no
  dimension line or when one of these \<open>N + 1\<close> lines is not complete.
\<close>

fun skipComplete :: "nat \<Rightarrow> jsstr list \<Rightarrow> nat \<Rightarrow> nat option" where
  "skipComplete 0 ls pos = Some pos"
| "skipComplete (Suc n) [] pos = None"
| "skipComplete (Suc n) [l] pos = None"
| "skipComplete (Suc n) (l # l' # r) pos = skipComplete n (l' # r) (pos + length l + 1)"

fun claimedFrom :: "nat \<Rightarrow> jsstr list \<Rightarrow> nat \<Rightarrow> nat option" where
  "claimedFrom n [] pos = None"
| "claimedFrom n (l # ls) pos =
     (if isDimLine l then skipComplete (Suc n) (l # ls) pos
      else claimedFrom n ls (pos + length l + 1))"

definition claimedOffset :: "jsstr \<Rightarrow> nat \<Rightarrow> nat option" where
  "claimedOffset t n = claimedFrom n (split_on NL t) 0"

text \<open>The footer decoded from \<open>footerStart = binaryOffset + 256 * 256 * 6\<close>.\<close>

definition footerAt :: "byte list \<Rightarrow> nat \<Rightarrow> FooterState" where
  "footerAt buffer binaryOffset =
     (if binaryOffset + 256 * 256 * 6 < length buffer
      then parseFooter (modelNames buffer) (decode (drop (binaryOffset + 256 * 256 * 6) buffer))
      else footerInit)"

text \<open>
  A composite header as bytes: the lines \<open>before\<close>, the dimension line \<open>256 256 3\<close> with
  the rest \<open>r0\<close> of its line, and the lines of the texture list; every line ends with a
  line feed.
\<close>

definition byteLines :: "byte list list \<Rightarrow> byte list" where
  "byteLines ls = concat (map (\<lambda>l. l @ [0x0A]) ls)"

definition compositeHeader :: "byte list list \<Rightarrow> byte list \<Rightarrow> byte list list \<Rightarrow> byte list" where
  "compositeHeader before r0 textures =
     byteLines before @ ascii ''256 256 3'' @ r0 @ [0x0A] @ byteLines textures"

section \<open>The grids\<close>

lemma length_foldl_update:
  "length (foldl (\<lambda>h j. if c j then h[g j := v j] else h) a js) = length a"
  by (induction js arbitrary: a) simp_all

lemma nth_foldl_update:
  "i < length a \<Longrightarrow>
   foldl (\<lambda>h j. if c j then h[b + j := v j] else h) a [0..<n] ! i =
     (if b \<le> i \<and> i < b + n \<and> c (i - b) then v (i - b) else a ! i)"
proof (induction n)
  case 0
  then show ?case by auto
next
  case (Suc n)
  have len: "i < length (foldl (\<lambda>h j. if c j then h[b + j := v j] else h) a [0..<n])"
    using Suc.prems by (simp add: length_foldl_update)
  show ?case
  proof (cases "i = b + n")
    case True
    with len Suc show ?thesis by simp
  next
    case False
    with len Suc show ?thesis by (auto simp: less_Suc_eq)
  qed
qed

lemma nth_foldl_update0:
  "i < length a \<Longrightarrow>
   foldl (\<lambda>h j. if c j then h[j := v j] else h) a [0..<n] ! i =
     (if i < n \<and> c i then v i else a ! i)"
proof (induction n)
  case 0
  then show ?case by simp
next
  case (Suc n)
  have len: "i < length (foldl (\<lambda>h j. if c j then h[j := v j] else h) a [0..<n])"
    using Suc.prems by (simp add: length_foldl_update)
  show ?case
  proof (cases "i = n")
    case True
    with len Suc show ?thesis by simp
  next
    case False
    with len Suc show ?thesis by (auto simp: less_Suc_eq)
  qed
qed

lemma zeroGrid_length: "length zeroGrid = 65536"
  by (simp add: zeroGrid_def)

lemma zeroGrid_nth: "i < 65536 \<Longrightarrow> zeroGrid ! i = 0"
  by (simp add: zeroGrid_def)

lemma extractTextureIndices_length: "length (extractTextureIndices buffer off) = 65536"
  by (simp add: extractTextureIndices_def Let_def length_foldl_update zeroGrid_length)

lemma extractTextureIndices_nth:
  assumes "i < 65536"
  shows "extractTextureIndices buffer off ! i =
     (if off + i * 6 + 2 \<le> length buffer
      then le16 (buffer ! (off + i * 6)) (buffer ! (off + i * 6 + 1)) else 0)"
proof -
  have "i < length zeroGrid" using assms by (simp add: zeroGrid_length)
  from nth_foldl_update0 [OF this, of "\<lambda>j. off + j * 6 + 2 \<le> length buffer"
      "\<lambda>j. le16 (buffer ! (off + j * 6)) (buffer ! (off + j * 6 + 1))" 65536]
  show ?thesis using assms
    by (simp add: extractTextureIndices_def Let_def zeroGrid_nth)
qed

lemma parseDPH_length: "length (parseDPH buffer) = 65536"
  by (simp add: parseDPH_def Let_def length_foldl_update zeroGrid_length)

lemma parseDPH_nth:
  assumes "i < 65536"
  shows "parseDPH buffer ! i =
     (if i * 2 + 1 < length buffer then le16 (buffer ! (i * 2)) (buffer ! (i * 2 + 1)) else 0)"
proof -
  have "i < length zeroGrid" using assms by (simp add: zeroGrid_length)
  from nth_foldl_update0 [OF this, of "\<lambda>j. j * 2 + 1 < length buffer"
      "\<lambda>j. le16 (buffer ! (j * 2)) (buffer ! (j * 2 + 1))" 65536]
  show ?thesis using assms
    by (simp add: parseDPH_def Let_def zeroGrid_nth)
qed

lemma heightRow_length: "length (heightRow buffer off row hs) = length hs"
  unfolding heightRow_def Let_def by (rule length_foldl_update)

lemma heightRow_nth:
  "i < length hs \<Longrightarrow> heightRow buffer off row hs ! i =
     (if row * 256 \<le> i \<and> i < row * 256 + 256 \<and>
         off + 5 * 65536 + row * 257 + (i - row * 256) < length buffer
      then ucast (buffer ! (off + 5 * 65536 + row * 257 + (i - row * 256))) else hs ! i)"
  unfolding heightRow_def Let_def by (rule nth_foldl_update)

lemma heightRows_length:
  "length (foldl (\<lambda>hs row. heightRow buffer off row hs) a [0..<m]) = length a"
  by (induction m) (simp_all add: heightRow_length)

lemma heightRows_nth:
  "i < length a \<Longrightarrow>
   foldl (\<lambda>hs row. heightRow buffer off row hs) a [0..<m] ! i =
     (if i < m * 256 \<and> off + 5 * 65536 + (i div 256) * 257 + i mod 256 < length buffer
      then ucast (buffer ! (off + 5 * 65536 + (i div 256) * 257 + i mod 256)) else a ! i)"
proof (induction m)
  case 0
  then show ?case by simp
next
  case (Suc m)
  have len: "i < length (foldl (\<lambda>hs row. heightRow buffer off row hs) a [0..<m])"
    using Suc.prems by (simp add: heightRows_length)
  show ?case
  proof (cases "m * 256 \<le> i \<and> i < m * 256 + 256")
    case True
    then have d: "i div 256 = m"
      by (simp add: div_nat_eqI)
    have "i mod 256 = i - m * 256"
      using d by (simp add: modulo_nat_def)
    with d True len Suc show ?thesis
      by (simp add: heightRow_nth)
  next
    case False
    with len Suc show ?thesis
      by (auto simp: heightRow_nth)
  qed
qed

lemma extractHeights_length: "length (extractHeights buffer off) = 65536"
  by (simp add: extractHeights_def heightRows_length zeroGrid_length)

lemma extractHeights_nth:
  assumes "i < 65536"
  shows "extractHeights buffer off ! i =
     (if off + 5 * 65536 + (i div 256) * 257 + i mod 256 < length buffer
      then ucast (buffer ! (off + 5 * 65536 + (i div 256) * 257 + i mod 256)) else 0)"
  using assms by (simp add: extractHeights_def heightRows_nth zeroGrid_length zeroGrid_nth)

section \<open>Splitting and trimming\<close>

lemma split_on_not_Nil: "split_on c s \<noteq> []"
  by (induction s) (auto split: list.splits)

lemma split_on_sep: "c \<notin> set l \<Longrightarrow> split_on c (l @ c # r) = l # split_on c r"
  by (induction l) auto

lemma split_on_no_sep: "c \<notin> set s \<Longrightarrow> split_on c s = [s]"
  by (induction s) auto

lemma split_on_lines:
  "\<forall>l\<in>set ls. c \<notin> set l \<Longrightarrow>
   split_on c (concat (map (\<lambda>l. l @ [c]) ls) @ r) = ls @ split_on c r"
  by (induction ls) (simp_all add: split_on_sep)

lemma split_on_elem: "l \<in> set (split_on c s) \<Longrightarrow> c \<notin> set l \<and> set l \<subseteq> set s"
proof (induction s arbitrary: l)
  case Nil
  then show ?case by simp
next
  case (Cons x xs)
  show ?case
  proof (cases "split_on c xs")
    case Nil
    with split_on_not_Nil [of c xs] show ?thesis by simp
  next
    case (Cons a list)
    show ?thesis
    proof (cases "x = c")
      case True
      with Cons.prems Cons.IH show ?thesis by auto
    next
      case False
      with Cons.prems \<open>split_on c xs = a # list\<close>
      have "l = x # a \<or> l \<in> set list" by auto
      moreover have "c \<notin> set a \<and> set a \<subseteq> set xs"
        using Cons.IH [of a] \<open>split_on c xs = a # list\<close> by simp
      moreover have "l \<in> set list \<Longrightarrow> c \<notin> set l \<and> set l \<subseteq> set xs"
        using Cons.IH [of l] \<open>split_on c xs = a # list\<close> by simp
      ultimately show ?thesis using False by auto
    qed
  qed
qed

lemma set_trim: "set (trim s) \<subseteq> set s"
proof
  fix x assume "x \<in> set (trim s)"
  then have "x \<in> set (dropWhile isWhiteSpace (rev (dropWhile isWhiteSpace s)))"
    by (simp add: trim_def)
  then have "x \<in> set (rev (dropWhile isWhiteSpace s))"
    by (rule set_dropWhileD)
  then have "x \<in> set (dropWhile isWhiteSpace s)" by simp
  then show "x \<in> set s" by (rule set_dropWhileD)
qed

lemma dropWhile_hd_id: "xs \<noteq> [] \<Longrightarrow> \<not> P (hd xs) \<Longrightarrow> dropWhile P xs = xs"
  by (cases xs) simp_all

lemma last_dropWhile_eq: "dropWhile P xs \<noteq> [] \<Longrightarrow> last (dropWhile P xs) = last xs"
  by (induction xs) (auto split: if_splits)

lemma trim_ends:
  assumes "trim s \<noteq> []"
  shows "\<not> isWhiteSpace (hd (trim s))" and "\<not> isWhiteSpace (last (trim s))"
proof -
  let ?u = "dropWhile isWhiteSpace s"
  let ?v = "dropWhile isWhiteSpace (rev ?u)"
  from assms have v: "?v \<noteq> []" by (simp add: trim_def)
  have u: "?u \<noteq> []"
  proof
    assume "?u = []"
    with v show False by simp
  qed
  have "last (trim s) = hd ?v"
    using v by (simp add: trim_def last_rev)
  then show "\<not> isWhiteSpace (last (trim s))"
    using hd_dropWhile [OF v] by simp
  have "hd (trim s) = last ?v"
    using v by (simp add: trim_def hd_rev)
  also have "\<dots> = last (rev ?u)"
    using v by (rule last_dropWhile_eq)
  also have "\<dots> = hd ?u"
    using u by (simp add: last_rev)
  finally show "\<not> isWhiteSpace (hd (trim s))"
    using hd_dropWhile [OF u] by simp
qed

lemma trim_fixed:
  assumes "s \<noteq> []" "\<not> isWhiteSpace (hd s)" "\<not> isWhiteSpace (last s)"
  shows "trim s = s"
proof -
  have "dropWhile isWhiteSpace s = s"
    using assms by (simp add: dropWhile_hd_id)
  moreover have "dropWhile isWhiteSpace (rev s) = rev s"
    using assms by (simp add: dropWhile_hd_id hd_rev)
  ultimately show ?thesis by (simp add: trim_def)
qed

lemma trim_Nil: "trim [] = []"
  by (simp add: trim_def)

lemma trim_trim: "trim (trim s) = trim s"
proof (cases "trim s = []")
  case True
  then show ?thesis by (simp add: trim_Nil)
next
  case False
  then show ?thesis by (simp add: trim_fixed trim_ends)
qed

section \<open>Decoding ASCII bytes\<close>

lemma utf8_ascii: "\<forall>b\<in>set bs. b \<le> 0x7F \<Longrightarrow> utf8 0 0 0x80 0xBF bs = map unat bs"
  by (induction bs) (simp_all add: utf8.simps)

lemma utf16_byte: "utf16 (unat (b :: byte)) = [ucast b]"
proof -
  have "unat b < 2 ^ 8" using unsigned_less [of b, where ?'a = nat] by simp
  then have "unat b < 0x10000" by simp
  then show ?thesis by (simp add: utf16_def)
qed

lemma decode_ascii:
  assumes "\<forall>b\<in>set bs. b \<le> 0x7F"
  shows "decode bs = map ucast bs"
proof -
  have "take 3 bs \<noteq> [0xEF, 0xBB, 0xBF]"
  proof
    assume "take 3 bs = [0xEF, 0xBB, 0xBF]"
    then have "0xEF \<in> set (take 3 bs)" by simp
    then have "(0xEF :: byte) \<in> set bs" by (rule in_set_takeD)
    with assms have "(0xEF :: byte) \<le> 0x7F" by blast
    then show False by simp
  qed
  moreover have "concat (map utf16 (map unat bs)) = map ucast bs"
    by (induction bs) (simp_all add: utf16_byte)
  ultimately show ?thesis
    using assms by (simp add: decode_def utf8_ascii)
qed

section \<open>Totality and the size of the grids\<close>

lemma lflLine_Inr: "\<exists>config'. lflLine config line = Inr config'"
  using split_on_not_Nil [of "0x3A" line]
  by (auto simp: lflLine_def split: list.splits)

lemma lflLoop_Inr: "\<exists>config'. lflLoop config lines = Inr config'"
proof (induction lines arbitrary: config)
  case Nil
  show ?case by simp
next
  case (Cons line lines)
  obtain c1 where "lflLine config line = Inr c1"
    using lflLine_Inr by blast
  with Cons [of c1] show ?case by simp
qed

lemma parseSLK_None:
  "locateBinary (headerText buffer) = None \<Longrightarrow> parseSLK buffer = slkDefault"
  by (simp add: parseSLK_def slkDefault_def)

lemma parseSLK_Some:
  "locateBinary (headerText buffer) = Some off \<Longrightarrow>
   textureIndices (parseSLK buffer) = extractTextureIndices buffer off \<and>
   heights (parseSLK buffer) = extractHeights buffer off"
  by (simp add: parseSLK_def Let_def)

lemma parseSLK_lengths:
  "length (textureIndices (parseSLK buffer)) = 65536 \<and> length (heights (parseSLK buffer)) = 65536"
  by (cases "locateBinary (headerText buffer)")
    (simp_all add: parseSLK_None parseSLK_Some slkDefault_def zeroGrid_length
      extractTextureIndices_length extractHeights_length)

lemma texture_uncovered_zero:
  "i < 65536 \<Longrightarrow> textureUncovered buffer i \<Longrightarrow> textureIndices (parseSLK buffer) ! i = 0"
  by (cases "locateBinary (headerText buffer)")
    (simp_all add: textureUncovered_def parseSLK_None parseSLK_Some slkDefault_def zeroGrid_nth
      extractTextureIndices_nth)

lemma height_uncovered_zero:
  "i < 65536 \<Longrightarrow> heightUncovered buffer i \<Longrightarrow> heights (parseSLK buffer) ! i = 0"
  by (cases "locateBinary (headerText buffer)")
    (simp_all add: heightUncovered_def parseSLK_None parseSLK_Some slkDefault_def zeroGrid_nth
      extractHeights_nth)

text \<open>
  Claim C3. Every decoder returns a value for every input. \<open>parseLFL\<close> has one
  operation that can throw, and never reaches it; \<open>parseCAM\<close>, \<open>parseSLK\<close> and
  \<open>parseDPH\<close> have none, and their loops run over finite lists. The grids returned by
  \<open>parseSLK\<close> and \<open>parseDPH\<close> have exactly 65536 cells, and every cell that is not
  covered by input bytes is 0.
\<close>

theorem decoders_total:
  "(\<exists>config. parseLFL content = Inr config)
   \<and> (\<exists>data. parseCAM content = data)
   \<and> (\<exists>result. parseSLK buffer = result)
   \<and> (\<exists>hs. parseDPH buffer = hs)
   \<and> length (textureIndices (parseSLK buffer)) = 65536
   \<and> length (heights (parseSLK buffer)) = 65536
   \<and> length (parseDPH buffer) = 65536
   \<and> (\<forall>i<65536. length buffer \<le> i * 2 + 1 \<longrightarrow> parseDPH buffer ! i = 0)
   \<and> (\<forall>i<65536. textureUncovered buffer i \<longrightarrow> textureIndices (parseSLK buffer) ! i = 0)
   \<and> (\<forall>i<65536. heightUncovered buffer i \<longrightarrow> heights (parseSLK buffer) ! i = 0)"
  using lflLoop_Inr [of Map.empty "split_on NL content"]
  by (simp add: parseLFL_def parseSLK_lengths parseDPH_length parseDPH_nth
      texture_uncovered_zero height_uncovered_zero)

lemma headerText_small: "locateBinary (headerText (ascii ''256 256 0'' @ [0x0A, 7, 1])) = Some 10"
proof -
  have h: "headerText (ascii ''256 256 0'' @ [0x0A, 7, 1]) = str ''256 256 0'' @ [NL, 7, 1]"
    by (simp add: headerText_def decode_ascii ascii_def str_def)
  show ?thesis unfolding h by code_simp
qed

theorem decoders_total_witness:
  "(6::nat) < 65536
   \<and> length (ascii ''256 256 0'' @ [0x0A, 7, 1]) \<le> 6 * 2 + 1
   \<and> parseDPH (ascii ''256 256 0'' @ [0x0A, 7, 1]) ! 6 = 0
   \<and> textureUncovered (ascii ''256 256 0'' @ [0x0A, 7, 1]) 6
   \<and> textureIndices (parseSLK (ascii ''256 256 0'' @ [0x0A, 7, 1])) ! 6 = 0
   \<and> heightUncovered (ascii ''256 256 0'' @ [0x0A, 7, 1]) 6
   \<and> heights (parseSLK (ascii ''256 256 0'' @ [0x0A, 7, 1])) ! 6 = 0"
proof -
  have u: "textureUncovered (ascii ''256 256 0'' @ [0x0A, 7, 1]) 6"
      "heightUncovered (ascii ''256 256 0'' @ [0x0A, 7, 1]) 6"
    unfolding textureUncovered_def heightUncovered_def headerText_small
    by (simp_all add: ascii_def)
  have l: "length (ascii ''256 256 0'' @ [0x0A, 7, 1]) \<le> 6 * 2 + 1"
    by (simp add: ascii_def)
  from decoders_total [of "[]" "ascii ''256 256 0'' @ [0x0A, 7, 1]"] u l
  show ?thesis by simp
qed

section \<open>No dimension line, no terrain\<close>

lemma findDim_None: "\<forall>l\<in>set ls. \<not> isDimLine l \<Longrightarrow> findDim ls = None"
  by (induction ls) simp_all

text \<open>
  Claim C2. When no line of the header text (the first 50000 bytes, decoded) consists of
  exactly three white-space separated tokens of which the first two are \<open>256\<close>, the
  result of \<open>parseSLK\<close> is the default one: both grids zero, no objects, no citadels.
\<close>

theorem parseSLK_without_dimension_line:
  assumes "\<forall>l\<in>set (split_on NL (headerText buffer)). \<not> isDimLine l"
  shows "parseSLK buffer = slkDefault
    \<and> textureIndices (parseSLK buffer) = replicate (256 * 256) 0
    \<and> heights (parseSLK buffer) = replicate (256 * 256) 0
    \<and> objects (parseSLK buffer) = [] \<and> citadels (parseSLK buffer) = []"
proof -
  have "locateBinary (headerText buffer) = None"
    using findDim_None [OF assms] by (simp add: locateBinary_def)
  then have "parseSLK buffer = slkDefault"
    by (rule parseSLK_None)
  then show ?thesis
    by (simp add: slkDefault_def zeroGrid_def)
qed

lemma no_dimension_example:
  "\<forall>l\<in>set (split_on NL (str ''models/a.sdf 1'' @ [NL] @ str ''256 256'' @ [NL] @ str ''256 1 256'')).
     \<not> isDimLine l"
  by code_simp

theorem parseSLK_without_dimension_line_witness:
  "list_all (\<lambda>l. \<not> isDimLine l) (split_on NL (headerText
        (ascii ''models/a.sdf 1'' @ [0x0A] @ ascii ''256 256'' @ [0x0A] @ ascii ''256 1 256'')))
   \<and> parseSLK (ascii ''models/a.sdf 1'' @ [0x0A] @ ascii ''256 256'' @ [0x0A] @ ascii ''256 1 256'')
       = slkDefault"
proof -
  have h: "headerText (ascii ''models/a.sdf 1'' @ [0x0A] @ ascii ''256 256'' @ [0x0A] @ ascii ''256 1 256'')
      = str ''models/a.sdf 1'' @ [NL] @ str ''256 256'' @ [NL] @ str ''256 1 256''"
    by (simp add: headerText_def decode_ascii ascii_def str_def)
  have a: "\<forall>l\<in>set (split_on NL (headerText
        (ascii ''models/a.sdf 1'' @ [0x0A] @ ascii ''256 256'' @ [0x0A] @ ascii ''256 1 256''))).
      \<not> isDimLine l"
    unfolding h by (rule no_dimension_example)
  from parseSLK_without_dimension_line [OF a] a show ?thesis
    by (simp add: list_all_iff)
qed

section \<open>The footer of the specification's example\<close>

text \<open>
  Claim C1, as stated, fails: the first line of the footer is \<open>citadel\<close> with nothing after
  it, and a citadel block is entered only by a trimmed line that starts with
  \<open>citadel\<close> followed by a space. The footer emits nothing.
\<close>

theorem citadel_footer_counterexample:
  "objects (parseFooter Map.empty
      (lines_of [str ''citadel'', str ''base 5 5 0'', str ''upgrades 1'', str ''1 1 0 9''])) = []
   \<and> citadels (parseFooter Map.empty
      (lines_of [str ''citadel'', str ''base 5 5 0'', str ''upgrades 1'', str ''1 1 0 9''])) = []"
  by code_simp

lemma startsWith_decomp: "startsWith s p \<Longrightarrow> \<exists>r. s = p @ r"
  unfolding startsWith_def by (metis append_take_drop_id)

lemma footerLine_citadel:
  assumes "startsWith (trim raw) (str ''citadel '')"
  shows "footerLine modelIdToName footerInit raw
    = footerInit\<lparr>mode := CITADEL_BLOCK, currentCitadel := Some \<lparr>base = None, upgrades = []\<rparr>\<rparr>"
proof -
  from startsWith_decomp [OF assms] obtain r where "trim raw = str ''citadel '' @ r" ..
  then show ?thesis
    by (simp add: footerLine_def Let_def startsWith_def str_def footerInit_def)
qed

lemma citadel_block_lines:
  "citadels (flush (foldl (footerLine modelIdToName)
      (footerInit\<lparr>mode := CITADEL_BLOCK, currentCitadel := Some \<lparr>base = None, upgrades = []\<rparr>\<rparr>)
      (split_on NL (lines_of [str ''base 5 5 0'', str ''upgrades 1'', str ''1 1 0 9'']))))
     = [placed (str ''CITADEL_BASE'') (Num 5) (Num 5) (Num 0)]"
  "objects (flush (foldl (footerLine modelIdToName)
      (footerInit\<lparr>mode := CITADEL_BLOCK, currentCitadel := Some \<lparr>base = None, upgrades = []\<rparr>\<rparr>)
      (split_on NL (lines_of [str ''base 5 5 0'', str ''upgrades 1'', str ''1 1 0 9'']))))
     = [placed (str ''CITADEL_UPGRADE'') (Num 1) (Num 1) (Num 0)]"
  "placed (str ''CITADEL_UPGRADE'') (Num 1) (Num 1) (Num 0)
     \<noteq> placed (str ''CITADEL_BASE'') (Num 5) (Num 5) (Num 0)"
  by code_simp+

text \<open>
  Claim C1, amended: when the first line of the footer starts, once trimmed, with
  \<open>citadel\<close> and a space (the line \<open>citadel 1\<close>, say), and the lines \<open>base 5 5 0\<close>,
  \<open>upgrades 1\<close> and \<open>1 1 0 9\<close> follow, the footer yields exactly one citadel base at
  \<open>(5, 5, 0)\<close> in the list of citadels and exactly one citadel upgrade at \<open>(1, 1, 0)\<close> in
  the list of objects; the upgrade is not in the list of citadels.
\<close>

theorem citadel_footer_amended:
  assumes "NL \<notin> set first" and "startsWith (trim first) (str ''citadel '')"
  shows "citadels (parseFooter modelIdToName
      (first @ [NL] @ lines_of [str ''base 5 5 0'', str ''upgrades 1'', str ''1 1 0 9'']))
     = [placed (str ''CITADEL_BASE'') (Num 5) (Num 5) (Num 0)]
   \<and> objects (parseFooter modelIdToName
      (first @ [NL] @ lines_of [str ''base 5 5 0'', str ''upgrades 1'', str ''1 1 0 9'']))
     = [placed (str ''CITADEL_UPGRADE'') (Num 1) (Num 1) (Num 0)]
   \<and> placed (str ''CITADEL_UPGRADE'') (Num 1) (Num 1) (Num 0)
     \<notin> set (citadels (parseFooter modelIdToName
      (first @ [NL] @ lines_of [str ''base 5 5 0'', str ''upgrades 1'', str ''1 1 0 9''])))"
proof -
  let ?rest = "lines_of [str ''base 5 5 0'', str ''upgrades 1'', str ''1 1 0 9'']"
  have "split_on NL (first @ NL # ?rest) = first # split_on NL ?rest"
    using assms(1) by (rule split_on_sep)
  then have "parseFooter modelIdToName (first @ [NL] @ ?rest)
      = flush (foldl (footerLine modelIdToName)
          (footerInit\<lparr>mode := CITADEL_BLOCK,
             currentCitadel := Some \<lparr>base = None, upgrades = []\<rparr>\<rparr>)
          (split_on NL ?rest))"
    using footerLine_citadel [OF assms(2)] by (simp add: parseFooter_def)
  then show ?thesis
    by (simp only: citadel_block_lines) (simp add: citadel_block_lines(3))
qed

theorem citadel_footer_amended_witness:
  "startsWith (trim (str ''citadel 1'')) (str ''citadel '')
   \<and> citadels (parseFooter Map.empty
      (str ''citadel 1'' @ [NL] @ lines_of [str ''base 5 5 0'', str ''upgrades 1'', str ''1 1 0 9'']))
     = [placed (str ''CITADEL_BASE'') (Num 5) (Num 5) (Num 0)]
   \<and> objects (parseFooter Map.empty
      (str ''citadel 1'' @ [NL] @ lines_of [str ''base 5 5 0'', str ''upgrades 1'', str ''1 1 0 9'']))
     = [placed (str ''CITADEL_UPGRADE'') (Num 1) (Num 1) (Num 0)]"
proof -
  have a: "NL \<notin> set (str ''citadel 1'')" by (simp add: str_def)
  have b: "startsWith (trim (str ''citadel 1'')) (str ''citadel '')" by code_simp
  from citadel_footer_amended [OF a b, of Map.empty] b show ?thesis by blast
qed

section \<open>Unparsable tokens in the counted sections\<close>

text \<open>
  Claim C4, as stated, fails: in a slots section the line \<open>10 20 abc\<close> has the expected
  shape and an unparsable third token, yet a slot is emitted, with rotation 0, and the
  count goes from 2 to 1.
\<close>

theorem unparsable_token_counterexample:
  "footerLine Map.empty (footerInit\<lparr>mode := SLOTS, count := Some 2\<rparr>) (str ''10 20 abc'')
     = footerInit\<lparr>mode := SLOTS, count := Some 1,
         objects := [placed (str ''SLOT'') (Num 10) (Num 20) (Num 0)]\<rparr>"
  by code_simp

text \<open>
  Claim C4, amended: in a slots, citadel upgrades or objects section, a line whose
  \<open>x\<close> token (the first token, the third one in an objects section) is unparsable emits
  no record, neither to the objects nor to the pending citadel, and leaves the remaining
  count as it is.
\<close>

theorem unparsable_x_skips_line:
  assumes "mode st = SLOTS \<or> mode st = CITADEL_UPGRADES \<or> mode st = OBJECTS"
    and "parseFloat (xToken (mode st) (split_ws (trim raw))) = NaN"
  shows "objects (footerLine modelIdToName st raw) = objects st
    \<and> citadels (footerLine modelIdToName st raw) = citadels st
    \<and> currentCitadel (footerLine modelIdToName st raw) = currentCitadel st
    \<and> count (footerLine modelIdToName st raw) = count st"
  using assms
  by (auto simp: footerLine_def slotsLine_def upgradesLine_def objectsLine_def xToken_def
      isNaN_def Let_def split: option.splits)

theorem unparsable_x_skips_line_witness:
  "parseFloat (xToken SLOTS (split_ws (trim (str ''abc 20 0'')))) = NaN
   \<and> objects (footerLine Map.empty (footerInit\<lparr>mode := SLOTS, count := Some 2\<rparr>)
        (str ''abc 20 0'')) = []
   \<and> count (footerLine Map.empty (footerInit\<lparr>mode := SLOTS, count := Some 2\<rparr>)
        (str ''abc 20 0'')) = Some 2
   \<and> parseFloat (xToken CITADEL_UPGRADES (split_ws (trim (str ''x 1 0 9'')))) = NaN
   \<and> currentCitadel (footerLine Map.empty
        (footerInit\<lparr>mode := CITADEL_UPGRADES, count := Some 1,
           currentCitadel := Some \<lparr>base = None, upgrades = []\<rparr>\<rparr>) (str ''x 1 0 9''))
       = Some \<lparr>base = None, upgrades = []\<rparr>
   \<and> parseFloat (xToken OBJECTS (split_ws (trim (str ''33 8 abc 2 3 90'')))) = NaN
   \<and> objects (footerLine Map.empty (footerInit\<lparr>mode := OBJECTS, count := Some 1\<rparr>)
        (str ''33 8 abc 2 3 90'')) = []
   \<and> count (footerLine Map.empty (footerInit\<lparr>mode := OBJECTS, count := Some 1\<rparr>)
        (str ''33 8 abc 2 3 90'')) = Some 1"
proof -
  have a: "parseFloat (xToken SLOTS (split_ws (trim (str ''abc 20 0'')))) = NaN"
    by code_simp
  have b: "parseFloat (xToken CITADEL_UPGRADES (split_ws (trim (str ''x 1 0 9'')))) = NaN"
    by code_simp
  have c: "parseFloat (xToken OBJECTS (split_ws (trim (str ''33 8 abc 2 3 90'')))) = NaN"
    by code_simp
  show ?thesis
    using a b c
      unparsable_x_skips_line [of "footerInit\<lparr>mode := SLOTS, count := Some 2\<rparr>"
        "str ''abc 20 0''" Map.empty]
      unparsable_x_skips_line [of "footerInit\<lparr>mode := CITADEL_UPGRADES, count := Some 1,
           currentCitadel := Some \<lparr>base = None, upgrades = []\<rparr>\<rparr>" "str ''x 1 0 9''" Map.empty]
      unparsable_x_skips_line [of "footerInit\<lparr>mode := OBJECTS, count := Some 1\<rparr>"
        "str ''33 8 abc 2 3 90''" Map.empty]
    by (simp add: footerInit_def)
qed

section \<open>The line-count header of a narrative section\<close>

text \<open>
  Claim C5 on the input \<open>OBJECTIVE_BEGIN, 5, 6, Text, OBJECTIVE_END\<close>: the line \<open>6\<close> is
  not the first line of its section, and the claim keeps it as content; the code drops it
  together with the line \<open>5\<close>, since nothing has been accumulated yet.
\<close>

theorem two_numeric_lines_dropped:
  "objective (parseCAM (lines_of
      [str ''OBJECTIVE_BEGIN'', str ''5'', str ''6'', str ''Text'', str ''OBJECTIVE_END'']))
     = str ''Text'' @ [NL]"
  by code_simp

section \<open>What parseCAM maintains\<close>

lemma lines_of_snoc: "lines_of (ls @ [l]) = lines_of ls @ l @ [NL]"
  by (simp add: lines_of_def)

lemma lines_of_Nil_iff: "lines_of ls = [] \<longleftrightarrow> ls = []"
  by (cases ls) (simp_all add: lines_of_def)

lemma fieldInv_empty: "fieldInv P []"
  unfolding fieldInv_def by (rule exI [of _ "[]"]) (simp add: lines_of_def)

lemma fieldInv_append:
  assumes "fieldInv P f" "rawOk l" "trim l \<notin> set markers" "P l"
    and "f = [] \<longrightarrow> \<not> digitsOnly (trim l)"
  shows "fieldInv P (f @ l @ [NL])"
proof -
  from assms(1) obtain ls where ls: "f = lines_of ls"
      "\<forall>k\<in>set ls. rawOk k \<and> trim k \<notin> set markers \<and> P k"
      "ls \<noteq> [] \<longrightarrow> \<not> digitsOnly (trim (hd ls))"
    unfolding fieldInv_def by blast
  have "f @ l @ [NL] = lines_of (ls @ [l])"
    using ls(1) by (simp add: lines_of_snoc)
  moreover have "\<forall>k\<in>set (ls @ [l]). rawOk k \<and> trim k \<notin> set markers \<and> P k"
    using ls(2) assms(2-4) by simp
  moreover have "\<not> digitsOnly (trim (hd (ls @ [l])))"
    using ls(1,3) assms(5) by (cases ls) (simp_all add: lines_of_Nil_iff)
  ultimately show ?thesis
    unfolding fieldInv_def by blast
qed

text \<open>The loop body on a marker line and on any other line.\<close>

lemma camLine_marker: "trim line \<in> set markers \<Longrightarrow> snd (camLine sd line) = snd sd"
  by (auto simp: camLine_def markers_def Let_def)

lemma camLine_other:
  "trim line \<notin> set markers \<Longrightarrow>
   camLine (section, data) line =
     (if section = S_RANKING \<and> trim line \<noteq> [] then (S_NONE, data\<lparr>ranking := Some (trim line)\<rparr>)
      else if section = S_OBJECTIVE then
        (if objective data = [] \<and> digitsOnly (trim line) then (section, data)
         else (section, data\<lparr>objective := objective data @ line @ [NL]\<rparr>))
      else if section = S_SPYINFO then
        (if spyInfo data = [] \<and> digitsOnly (trim line) then (section, data)
         else if startsWith (trim line) (str ''PI4'') then (section, data)
         else (section, data\<lparr>spyInfo := spyInfo data @ line @ [NL]\<rparr>))
      else if section = S_DESCRIPTION then
        (if description data = [] \<and> digitsOnly (trim line) then (section, data)
         else (section, data\<lparr>description := description data @ line @ [NL]\<rparr>))
      else (section, data))"
  by (simp add: camLine_def markers_def Let_def)

lemma rankOk_trim:
  assumes "rawOk line" "trim line \<noteq> []" "trim line \<notin> set markers"
  shows "rankOk (trim line)"
  using assms set_trim [of line] by (auto simp: rankOk_def rawOk_def trim_trim)

lemma camLine_inv:
  assumes "rawOk line" "camInv (snd sd)"
  shows "camInv (snd (camLine sd line))"
proof (cases "trim line \<in> set markers")
  case True
  with assms(2) show ?thesis by (simp add: camLine_marker)
next
  case False
  obtain sec data where sd: "sd = (sec, data)" by (cases sd)
  from assms(2) sd have inv: "fieldInv (\<lambda>l. True) (objective data)"
      "fieldInv notPI4 (spyInfo data)" "fieldInv (\<lambda>l. True) (description data)"
      "case ranking data of None \<Rightarrow> True | Some r \<Rightarrow> rankOk r"
    by (simp_all add: camInv_def)
  show ?thesis
  proof (cases sec)
    case S_NONE
    with False sd assms(2) show ?thesis by (simp add: camLine_other)
  next
    case S_RANKING
    with False sd inv assms(1) show ?thesis
      by (simp add: camLine_other camInv_def rankOk_trim)
  next
    case S_OBJECTIVE
    with False sd inv assms(1) show ?thesis
      by (simp add: camLine_other camInv_def fieldInv_append fieldInv_empty)
  next
    case S_SPYINFO
    with False sd inv assms(1) show ?thesis
      by (simp add: camLine_other camInv_def fieldInv_append fieldInv_empty notPI4_def)
  next
    case S_DESCRIPTION
    with False sd inv assms(1) show ?thesis
      by (simp add: camLine_other camInv_def fieldInv_append fieldInv_empty)
  qed
qed

lemma camLoop_inv:
  "\<forall>l\<in>set ls. rawOk l \<Longrightarrow> camInv (snd sd) \<Longrightarrow> camInv (snd (foldl camLine sd ls))"
  by (induction ls arbitrary: sd) (simp_all add: camLine_inv)

lemma camLines_rawOk: "l \<in> set (camLines content) \<Longrightarrow> rawOk l"
  using split_on_elem [of l NL "filter (\<lambda>c. c \<noteq> CR) (map (\<lambda>c. if c = 0xFFFD then 0x27 else c) content)"]
  by (auto simp: camLines_def rawOk_def)

lemma camInv_init: "camInv camInit"
  by (simp add: camInv_def camInit_def fieldInv_empty)

lemma parseCAM_inv: "camInv (parseCAM content)"
  unfolding parseCAM_def
  by (rule camLoop_inv) (simp_all add: camLines_rawOk camInv_init)

section \<open>No marker in the fields\<close>

lemma fieldInv_lines:
  assumes "fieldInv P f"
  shows "\<forall>l\<in>set (split_on NL f). trim l \<notin> set markers"
proof -
  from assms obtain ls where ls: "f = lines_of ls"
      "\<forall>k\<in>set ls. rawOk k \<and> trim k \<notin> set markers \<and> P k"
    unfolding fieldInv_def by blast
  have "split_on NL (concat (map (\<lambda>l. l @ [NL]) ls) @ []) = ls @ split_on NL []"
    using ls(2) by (intro split_on_lines) (simp add: rawOk_def)
  then have "split_on NL f = ls @ [[]]"
    using ls(1) by (simp add: lines_of_def)
  moreover have "trim [] \<notin> set markers"
    by (simp add: trim_Nil markers_def str_def)
  ultimately show ?thesis using ls(2) by auto
qed

lemma rankOk_lines:
  assumes "rankOk r"
  shows "\<forall>l\<in>set (split_on NL r). trim l \<notin> set markers"
proof -
  from assms have "split_on NL r = [r]"
    by (simp add: rankOk_def rawOk_def split_on_no_sep)
  with assms show ?thesis by (simp add: rankOk_def)
qed

text \<open>
  Claim C9. For every input text, no line of a field of the record returned by
  \<open>parseCAM\<close> is, after trimming, one of the seven section markers.
\<close>

theorem fields_contain_no_marker:
  "(\<forall>l\<in>set (split_on NL (objective (parseCAM content))). trim l \<notin> set markers)
   \<and> (\<forall>l\<in>set (split_on NL (spyInfo (parseCAM content))). trim l \<notin> set markers)
   \<and> (\<forall>l\<in>set (split_on NL (description (parseCAM content))). trim l \<notin> set markers)
   \<and> (\<forall>r. ranking (parseCAM content) = Some r \<longrightarrow>
         (\<forall>l\<in>set (split_on NL r). trim l \<notin> set markers))"
proof -
  have inv: "camInv (parseCAM content)" by (rule parseCAM_inv)
  then have r: "\<forall>r. ranking (parseCAM content) = Some r \<longrightarrow> rankOk r"
    by (simp add: camInv_def split: option.splits)
  from inv have o: "fieldInv (\<lambda>l. True) (objective (parseCAM content))"
    and s: "fieldInv notPI4 (spyInfo (parseCAM content))"
    and d: "fieldInv (\<lambda>l. True) (description (parseCAM content))"
    by (simp_all add: camInv_def)
  show ?thesis
    using fieldInv_lines [OF o] fieldInv_lines [OF s] fieldInv_lines [OF d] r rankOk_lines
    by blast
qed

lemma marker_example:
  "parseCAM (lines_of [str ''CAMPAIGN_RANKING'', str '' A '', str ''OBJECTIVE_BEGIN'', str ''3'',
       str ''Text'', str ''  OBJECTIVE_BEGIN '', str ''7'', str ''OBJECTIVE_END''])
     = \<lparr>ranking = Some (str ''A''), objective = str ''Text'' @ [NL] @ str ''7'' @ [NL],
        spyInfo = [], description = []\<rparr>"
  by code_simp

theorem fields_contain_no_marker_witness:
  "str ''Text'' \<in> set (split_on NL (objective (parseCAM
       (lines_of [str ''CAMPAIGN_RANKING'', str '' A '', str ''OBJECTIVE_BEGIN'', str ''3'',
          str ''Text'', str ''  OBJECTIVE_BEGIN '', str ''7'', str ''OBJECTIVE_END'']))))
   \<and> trim (str ''Text'') \<notin> set markers
   \<and> ranking (parseCAM
       (lines_of [str ''CAMPAIGN_RANKING'', str '' A '', str ''OBJECTIVE_BEGIN'', str ''3'',
          str ''Text'', str ''  OBJECTIVE_BEGIN '', str ''7'', str ''OBJECTIVE_END''])) = Some (str ''A'')
   \<and> trim (str ''A'') \<notin> set markers"
proof -
  have "split_on NL (str ''Text'' @ [NL] @ str ''7'' @ [NL]) = [str ''Text'', str ''7'', []]"
    by code_simp
  moreover have "split_on NL (str ''A'') = [str ''A'']"
    by code_simp
  ultimately show ?thesis
    using fields_contain_no_marker [of "lines_of [str ''CAMPAIGN_RANKING'', str '' A '',
        str ''OBJECTIVE_BEGIN'', str ''3'', str ''Text'', str ''  OBJECTIVE_BEGIN '', str ''7'',
        str ''OBJECTIVE_END'']"]
    by (simp add: marker_example)
qed

section \<open>Decoding a decoded section again\<close>

lemma trim_marker:
  "trim (str ''OBJECTIVE_BEGIN'') = str ''OBJECTIVE_BEGIN''"
  "trim (str ''OBJECTIVE_END'') = str ''OBJECTIVE_END''"
  "trim (str ''SPYINFO_BEGIN'') = str ''SPYINFO_BEGIN''"
  "trim (str ''SPYINFO_END'') = str ''SPYINFO_END''"
  "trim (str ''DESCRIPTION_BEGIN'') = str ''DESCRIPTION_BEGIN''"
  "trim (str ''DESCRIPTION_END'') = str ''DESCRIPTION_END''"
  "trim (str ''CAMPAIGN_RANKING'') = str ''CAMPAIGN_RANKING''"
  by code_simp+

lemma camLine_on_marker:
  "camLine (sec, d) (str ''OBJECTIVE_BEGIN'') = (S_OBJECTIVE, d)"
  "camLine (sec, d) (str ''OBJECTIVE_END'') = (S_NONE, d)"
  "camLine (sec, d) (str ''SPYINFO_BEGIN'') = (S_SPYINFO, d)"
  "camLine (sec, d) (str ''SPYINFO_END'') = (S_NONE, d)"
  "camLine (sec, d) (str ''DESCRIPTION_BEGIN'') = (S_DESCRIPTION, d)"
  "camLine (sec, d) (str ''DESCRIPTION_END'') = (S_NONE, d)"
  "camLine (sec, d) (str ''CAMPAIGN_RANKING'') = (S_RANKING, d)"
  by (simp_all add: camLine_def Let_def trim_marker) (simp_all add: str_def)

lemma rawOk_marker:
  "rawOk (str ''OBJECTIVE_BEGIN'')" "rawOk (str ''OBJECTIVE_END'')"
  "rawOk (str ''SPYINFO_BEGIN'')" "rawOk (str ''SPYINFO_END'')"
  "rawOk (str ''DESCRIPTION_BEGIN'')" "rawOk (str ''DESCRIPTION_END'')"
  "rawOk (str ''CAMPAIGN_RANKING'')"
  by (simp_all add: rawOk_def str_def)

lemma camLines_clean:
  assumes "CR \<notin> set t" "0xFFFD \<notin> set t"
  shows "camLines t = split_on NL t"
proof -
  have "map (\<lambda>c. if c = 0xFFFD then 0x27 else c) t = t"
    using assms(2) by (induction t) auto
  moreover have "filter (\<lambda>c. c \<noteq> CR) t = t"
    using assms(1) by (induction t) auto
  ultimately show ?thesis by (simp add: camLines_def)
qed

text \<open>The text \<open>begin\<close>, line feed, the lines \<open>ls\<close>, \<open>end\<close> is read as these lines.\<close>

lemma camLines_wrapped:
  assumes "rawOk b" "rawOk e" "\<forall>l\<in>set ls. rawOk l"
  shows "camLines (b @ [NL] @ lines_of ls @ e) = b # ls @ [e]"
proof -
  have "CR \<notin> set (b @ [NL] @ lines_of ls @ e)" "0xFFFD \<notin> set (b @ [NL] @ lines_of ls @ e)"
    using assms by (auto simp: rawOk_def lines_of_def)
  then have "camLines (b @ [NL] @ lines_of ls @ e) = split_on NL (b @ NL # (lines_of ls @ e))"
    by (simp add: camLines_clean)
  also have "\<dots> = b # split_on NL (lines_of ls @ e)"
    using assms(1) by (simp add: split_on_sep rawOk_def)
  also have "split_on NL (lines_of ls @ e) = ls @ split_on NL e"
    unfolding lines_of_def using assms(3) by (intro split_on_lines) (simp add: rawOk_def)
  also have "split_on NL e = [e]"
    using assms(2) by (simp add: split_on_no_sep rawOk_def)
  finally show ?thesis .
qed

lemma lines_of_Cons: "lines_of (l # ls) = l @ [NL] @ lines_of ls"
  by (simp add: lines_of_def)

lemma run_objective:
  "\<forall>l\<in>set ls. trim l \<notin> set markers \<Longrightarrow>
   objective d \<noteq> [] \<or> ls = [] \<or> \<not> digitsOnly (trim (hd ls)) \<Longrightarrow>
   foldl camLine (S_OBJECTIVE, d) ls = (S_OBJECTIVE, d\<lparr>objective := objective d @ lines_of ls\<rparr>)"
proof (induction ls arbitrary: d)
  case Nil
  show ?case by (simp add: lines_of_def)
next
  case (Cons l ls)
  have step: "camLine (S_OBJECTIVE, d) l = (S_OBJECTIVE, d\<lparr>objective := objective d @ l @ [NL]\<rparr>)"
    using Cons.prems by (auto simp: camLine_other)
  show ?case
    using Cons.prems Cons.IH [of "d\<lparr>objective := objective d @ l @ [NL]\<rparr>"]
    by (simp add: step lines_of_Cons)
qed

lemma run_spyInfo:
  "\<forall>l\<in>set ls. trim l \<notin> set markers \<and> notPI4 l \<Longrightarrow>
   spyInfo d \<noteq> [] \<or> ls = [] \<or> \<not> digitsOnly (trim (hd ls)) \<Longrightarrow>
   foldl camLine (S_SPYINFO, d) ls = (S_SPYINFO, d\<lparr>spyInfo := spyInfo d @ lines_of ls\<rparr>)"
proof (induction ls arbitrary: d)
  case Nil
  show ?case by (simp add: lines_of_def)
next
  case (Cons l ls)
  have step: "camLine (S_SPYINFO, d) l = (S_SPYINFO, d\<lparr>spyInfo := spyInfo d @ l @ [NL]\<rparr>)"
    using Cons.prems by (auto simp: camLine_other notPI4_def)
  show ?case
    using Cons.prems Cons.IH [of "d\<lparr>spyInfo := spyInfo d @ l @ [NL]\<rparr>"]
    by (simp add: step lines_of_Cons)
qed

lemma run_description:
  "\<forall>l\<in>set ls. trim l \<notin> set markers \<Longrightarrow>
   description d \<noteq> [] \<or> ls = [] \<or> \<not> digitsOnly (trim (hd ls)) \<Longrightarrow>
   foldl camLine (S_DESCRIPTION, d) ls
     = (S_DESCRIPTION, d\<lparr>description := description d @ lines_of ls\<rparr>)"
proof (induction ls arbitrary: d)
  case Nil
  show ?case by (simp add: lines_of_def)
next
  case (Cons l ls)
  have step: "camLine (S_DESCRIPTION, d) l
      = (S_DESCRIPTION, d\<lparr>description := description d @ l @ [NL]\<rparr>)"
    using Cons.prems by (auto simp: camLine_other)
  show ?case
    using Cons.prems Cons.IH [of "d\<lparr>description := description d @ l @ [NL]\<rparr>"]
    by (simp add: step lines_of_Cons)
qed

lemma redecode_objective:
  assumes "fieldInv P f"
  shows "objective (parseCAM (str ''OBJECTIVE_BEGIN'' @ [NL] @ f @ str ''OBJECTIVE_END'')) = f"
proof -
  from assms obtain ls where ls: "f = lines_of ls"
      "\<forall>k\<in>set ls. rawOk k \<and> trim k \<notin> set markers \<and> P k"
      "ls \<noteq> [] \<longrightarrow> \<not> digitsOnly (trim (hd ls))"
    unfolding fieldInv_def by blast
  have "camLines (str ''OBJECTIVE_BEGIN'' @ [NL] @ lines_of ls @ str ''OBJECTIVE_END'')
      = str ''OBJECTIVE_BEGIN'' # ls @ [str ''OBJECTIVE_END'']"
    using ls(2) by (intro camLines_wrapped) (simp_all add: rawOk_marker)
  moreover have "foldl camLine (S_OBJECTIVE, camInit) ls
      = (S_OBJECTIVE, camInit\<lparr>objective := objective camInit @ lines_of ls\<rparr>)"
    using ls(2,3) by (intro run_objective) auto
  ultimately show ?thesis
    using ls(1) by (simp add: parseCAM_def camLine_on_marker camInit_def)
qed

lemma redecode_spyInfo:
  assumes "fieldInv notPI4 f"
  shows "spyInfo (parseCAM (str ''SPYINFO_BEGIN'' @ [NL] @ f @ str ''SPYINFO_END'')) = f"
proof -
  from assms obtain ls where ls: "f = lines_of ls"
      "\<forall>k\<in>set ls. rawOk k \<and> trim k \<notin> set markers \<and> notPI4 k"
      "ls \<noteq> [] \<longrightarrow> \<not> digitsOnly (trim (hd ls))"
    unfolding fieldInv_def by blast
  have "camLines (str ''SPYINFO_BEGIN'' @ [NL] @ lines_of ls @ str ''SPYINFO_END'')
      = str ''SPYINFO_BEGIN'' # ls @ [str ''SPYINFO_END'']"
    using ls(2) by (intro camLines_wrapped) (simp_all add: rawOk_marker)
  moreover have "foldl camLine (S_SPYINFO, camInit) ls
      = (S_SPYINFO, camInit\<lparr>spyInfo := spyInfo camInit @ lines_of ls\<rparr>)"
    using ls(2,3) by (intro run_spyInfo) auto
  ultimately show ?thesis
    using ls(1) by (simp add: parseCAM_def camLine_on_marker camInit_def)
qed

lemma redecode_description:
  assumes "fieldInv P f"
  shows "description (parseCAM (str ''DESCRIPTION_BEGIN'' @ [NL] @ f @ str ''DESCRIPTION_END'')) = f"
proof -
  from assms obtain ls where ls: "f = lines_of ls"
      "\<forall>k\<in>set ls. rawOk k \<and> trim k \<notin> set markers \<and> P k"
      "ls \<noteq> [] \<longrightarrow> \<not> digitsOnly (trim (hd ls))"
    unfolding fieldInv_def by blast
  have "camLines (str ''DESCRIPTION_BEGIN'' @ [NL] @ lines_of ls @ str ''DESCRIPTION_END'')
      = str ''DESCRIPTION_BEGIN'' # ls @ [str ''DESCRIPTION_END'']"
    using ls(2) by (intro camLines_wrapped) (simp_all add: rawOk_marker)
  moreover have "foldl camLine (S_DESCRIPTION, camInit) ls
      = (S_DESCRIPTION, camInit\<lparr>description := description camInit @ lines_of ls\<rparr>)"
    using ls(2,3) by (intro run_description) auto
  ultimately show ?thesis
    using ls(1) by (simp add: parseCAM_def camLine_on_marker camInit_def)
qed

lemma redecode_ranking:
  assumes "rankOk r"
  shows "ranking (parseCAM (str ''CAMPAIGN_RANKING'' @ [NL] @ r)) = Some r"
proof -
  have "camLines (str ''CAMPAIGN_RANKING'' @ [NL] @ lines_of [] @ r) = str ''CAMPAIGN_RANKING'' # [] @ [r]"
    using assms by (intro camLines_wrapped) (simp_all add: rawOk_marker rankOk_def)
  then have "camLines (str ''CAMPAIGN_RANKING'' @ [NL] @ r) = [str ''CAMPAIGN_RANKING'', r]"
    by (simp add: lines_of_def)
  moreover have "camLine (S_RANKING, camInit) r = (S_NONE, camInit\<lparr>ranking := Some r\<rparr>)"
    using assms by (simp add: camLine_other rankOk_def)
  ultimately show ?thesis
    by (simp add: parseCAM_def camLine_on_marker)
qed

text \<open>
  Claim C8. Decoding again the content of one decoded section, put back between the
  markers of that section, gives the same content: for the three multi-line fields and
  for the ranking.
\<close>

theorem redecoding_a_section_is_identity:
  "objective (parseCAM (str ''OBJECTIVE_BEGIN'' @ [NL] @ objective (parseCAM content)
       @ str ''OBJECTIVE_END'')) = objective (parseCAM content)
   \<and> spyInfo (parseCAM (str ''SPYINFO_BEGIN'' @ [NL] @ spyInfo (parseCAM content)
       @ str ''SPYINFO_END'')) = spyInfo (parseCAM content)
   \<and> description (parseCAM (str ''DESCRIPTION_BEGIN'' @ [NL] @ description (parseCAM content)
       @ str ''DESCRIPTION_END'')) = description (parseCAM content)
   \<and> (\<forall>r. ranking (parseCAM content) = Some r \<longrightarrow>
         ranking (parseCAM (str ''CAMPAIGN_RANKING'' @ [NL] @ r)) = Some r)"
proof -
  have inv: "camInv (parseCAM content)" by (rule parseCAM_inv)
  then have r: "\<forall>r. ranking (parseCAM content) = Some r \<longrightarrow> rankOk r"
    by (simp add: camInv_def split: option.splits)
  from inv have o: "fieldInv (\<lambda>l. True) (objective (parseCAM content))"
    and s: "fieldInv notPI4 (spyInfo (parseCAM content))"
    and d: "fieldInv (\<lambda>l. True) (description (parseCAM content))"
    by (simp_all add: camInv_def)
  show ?thesis
    using redecode_objective [OF o] redecode_spyInfo [OF s] redecode_description [OF d]
      r redecode_ranking
    by blast
qed

theorem redecoding_a_section_is_identity_witness:
  "ranking (parseCAM
       (lines_of [str ''CAMPAIGN_RANKING'', str '' A '', str ''OBJECTIVE_BEGIN'', str ''3'',
          str ''Text'', str ''  OBJECTIVE_BEGIN '', str ''7'', str ''OBJECTIVE_END''])) = Some (str ''A'')
   \<and> ranking (parseCAM (str ''CAMPAIGN_RANKING'' @ [NL] @ str ''A'')) = Some (str ''A'')
   \<and> objective (parseCAM (str ''OBJECTIVE_BEGIN'' @ [NL] @ (str ''Text'' @ [NL] @ str ''7'' @ [NL])
       @ str ''OBJECTIVE_END'')) = str ''Text'' @ [NL] @ str ''7'' @ [NL]"
  using redecoding_a_section_is_identity [of "lines_of [str ''CAMPAIGN_RANKING'', str '' A '',
        str ''OBJECTIVE_BEGIN'', str ''3'', str ''Text'', str ''  OBJECTIVE_BEGIN '', str ''7'',
        str ''OBJECTIVE_END'']"]
  by (simp add: marker_example)

section \<open>The offset of the binary block\<close>

lemma decdigits_no_NL: "NL \<notin> set (decdigits n)"
proof (induction n rule: decdigits.induct)
  case (1 n)
  have d: "(of_nat (0x30 + k) :: 16 word) \<noteq> NL" if "k < 10" for k
  proof
    assume eq: "(of_nat (0x30 + k) :: 16 word) = NL"
    have a: "unat (of_nat (0x30 + k) :: 16 word) = (0x30 + k) mod 2 ^ LENGTH(16)"
      by (rule unat_of_nat)
    have b: "unat (NL :: 16 word) = 10" by simp
    from eq have "unat (of_nat (0x30 + k) :: 16 word) = unat (NL :: 16 word)"
      by (rule arg_cong)
    with a b have "(0x30 + k) mod 2 ^ LENGTH(16) = 10" by (simp only:)
    with that show False by simp
  qed
  show ?case
  proof (cases "n < 10")
    case True
    then show ?thesis using d [of n] by (subst decdigits.simps) simp
  next
    case False
    then show ?thesis using 1 d [of "n mod 10"] by (subst decdigits.simps) simp
  qed
qed

lemma dimString_no_NL: "NL \<notin> set (dimString (Some (int n)))"
  using decdigits_no_NL [of n] by (simp add: dimString_def numToString_def str_def)

lemma findSub_char:
  "c \<notin> set a \<Longrightarrow> findSub [c] (a @ c # b) i = Some (i + length a)"
  by (induction a arbitrary: i) (auto simp: startsWith_def)

lemma findSub_char_None: "c \<notin> set s \<Longrightarrow> findSub [c] s i = None"
  by (induction s arbitrary: i) (auto simp: startsWith_def)

lemma indexOf_char:
  assumes "drop pos t = a @ c # b" "c \<notin> set a"
  shows "indexOf t [c] pos = Some (pos + length a)"
proof -
  have "pos \<le> length t" using assms(1) by (cases "pos \<le> length t") simp_all
  then show ?thesis using assms by (simp add: indexOf_def min_def findSub_char)
qed

lemma indexOf_char_None:
  assumes "c \<notin> set (drop pos t)"
  shows "indexOf t [c] pos = None"
proof (cases "pos \<le> length t")
  case True
  with assms show ?thesis by (simp add: indexOf_def min_def findSub_char_None)
next
  case False
  then show ?thesis by (simp add: indexOf_def min_def)
qed

lemma skipLines_lines:
  "drop pos t = lines_of ls @ rest \<Longrightarrow> \<forall>l\<in>set ls. NL \<notin> set l \<Longrightarrow>
   length ls = n \<or> (length ls < n \<and> NL \<notin> set rest) \<Longrightarrow>
   skipLines n t pos = pos + length (lines_of ls)"
proof (induction ls arbitrary: pos n)
  case Nil
  then show ?case
    by (cases n) (auto simp: lines_of_def indexOf_char_None)
next
  case (Cons l ls)
  from Cons.prems(3) obtain m where n: "n = Suc m" by (cases n) auto
  have d: "drop pos t = l @ NL # (lines_of ls @ rest)"
    using Cons.prems(1) by (simp add: lines_of_def)
  then have i: "indexOf t [NL] pos = Some (pos + length l)"
    using Cons.prems(2) by (intro indexOf_char) auto
  have "drop (pos + length l + 1) t = drop (length l + 1) (drop pos t)"
    by (simp add: add.commute add.left_commute)
  also have "\<dots> = lines_of ls @ rest"
    by (simp add: d)
  finally have "skipLines m t (pos + length l + 1) = pos + length l + 1 + length (lines_of ls)"
    using Cons.prems(2,3) n by (intro Cons.IH) auto
  then show ?case
    by (simp add: n i lines_of_def)
qed

lemma parseSLK_located:
  "locateBinary (headerText buffer) = Some off \<Longrightarrow>
   textureIndices (parseSLK buffer) = extractTextureIndices buffer off
   \<and> heights (parseSLK buffer) = extractHeights buffer off
   \<and> objects (parseSLK buffer) = objects (footerAt buffer off)
   \<and> citadels (parseSLK buffer) = citadels (footerAt buffer off)"
  by (simp add: parseSLK_def footerAt_def Let_def)

lemma locateBinary_lines:
  assumes dim: "findDim (split_on NL t) = Some (Some (int n))"
    and first: "indexOf t (dimString (Some (int n))) 0 = Some d"
    and shape: "drop d t = dimString (Some (int n)) @ r0 @ [NL] @ lines_of ls @ rest"
    and r0: "NL \<notin> set r0" and ls: "\<forall>l\<in>set ls. NL \<notin> set l"
    and count: "length ls = n \<or> (length ls < n \<and> NL \<notin> set rest)"
  shows "locateBinary t
      = Some (d + length (dimString (Some (int n))) + length r0 + 1 + length (lines_of ls))"
proof -
  let ?D = "dimString (Some (int n))"
  let ?p = "d + length ?D + length r0 + 1"
  have "drop d t = (?D @ r0) @ NL # (lines_of ls @ rest)"
    using shape by simp
  moreover have "NL \<notin> set (?D @ r0)"
    using r0 dimString_no_NL [of n] by simp
  ultimately have "indexOf t [NL] d = Some (d + length (?D @ r0))"
    by (rule indexOf_char)
  then have nl: "indexOf t [NL] d = Some (d + length ?D + length r0)"
    by (simp add: add.assoc)
  have "drop ?p t = drop (length ?D + length r0 + 1) (drop d t)"
    by (simp add: add.commute add.left_commute)
  also have "\<dots> = lines_of ls @ rest"
    by (simp add: shape)
  finally have rest: "drop ?p t = lines_of ls @ rest" .
  have "skipLines n t ?p = ?p + length (lines_of ls)"
    using rest ls count by (rule skipLines_lines)
  then show "locateBinary t = Some (?p + length (lines_of ls))"
    by (simp add: locateBinary_def dim first nl)
qed

lemma findDim_skip:
  "\<forall>l\<in>set ls. \<not> isDimLine l \<Longrightarrow> findDim (ls @ rest) = findDim rest"
  by (induction ls) simp_all

lemma skipComplete_lines:
  "rest \<noteq> [] \<Longrightarrow> skipComplete (length xs) (xs @ rest) pos = Some (pos + length (lines_of xs))"
proof (induction xs arbitrary: pos)
  case Nil
  show ?case by (simp add: lines_of_def)
next
  case (Cons x xs)
  from Cons.prems obtain y ys where y: "xs @ rest = y # ys"
    by (cases "xs @ rest") auto
  have "skipComplete (length (x # xs)) ((x # xs) @ rest) pos
      = skipComplete (length xs) (xs @ rest) (pos + length x + 1)"
    by (simp add: y)
  also have "\<dots> = Some (pos + length x + 1 + length (lines_of xs))"
    using Cons.prems by (rule Cons.IH)
  finally show ?case by (simp add: lines_of_Cons)
qed

lemma claimedFrom_skip:
  "\<forall>l\<in>set pre. \<not> isDimLine l \<Longrightarrow>
   claimedFrom n (pre @ xs) pos = claimedFrom n xs (pos + length (lines_of pre))"
proof (induction pre arbitrary: pos)
  case Nil
  show ?case by (simp add: lines_of_def)
next
  case (Cons l pre)
  then show ?case by (simp add: lines_of_Cons add.assoc)
qed

text \<open>The header text as a list of lines, when it is made of the lines \<open>before\<close>, a
  dimension line \<open>dl\<close>, the lines \<open>ls\<close> and a rest.\<close>

lemma header_lines:
  assumes "\<forall>l\<in>set before. NL \<notin> set l" "NL \<notin> set dl" "\<forall>l\<in>set ls. NL \<notin> set l"
  shows "split_on NL (lines_of before @ dl @ [NL] @ lines_of ls @ rest)
    = before @ dl # ls @ split_on NL rest"
proof -
  have "split_on NL (lines_of before @ dl @ [NL] @ lines_of ls @ rest)
      = before @ split_on NL (dl @ NL # (lines_of ls @ rest))"
    unfolding lines_of_def using assms(1) by (subst split_on_lines) auto
  also have "split_on NL (dl @ NL # (lines_of ls @ rest)) = dl # split_on NL (lines_of ls @ rest)"
    using assms(2) by (rule split_on_sep)
  also have "split_on NL (lines_of ls @ rest) = ls @ split_on NL rest"
    unfolding lines_of_def using assms(3) by (rule split_on_lines)
  finally show ?thesis by simp
qed

text \<open>
  Claim C6, as stated, fails: the header \<open>256 256 3\<close> followed by the single line \<open>A\<close>
  has a dimension line with \<open>N = 3\<close>, but no three complete lines after it; the loop
  that skips the texture list stops at the missing line terminator and the offset is 12,
  the position after the line \<open>A\<close>.
\<close>

theorem offset_counterexample:
  "findDim (split_on NL (headerText (ascii ''256 256 3'' @ [0x0A] @ ascii ''A'' @ [0x0A])))
     = Some (Some 3)
   \<and> locateBinary (headerText (ascii ''256 256 3'' @ [0x0A] @ ascii ''A'' @ [0x0A])) = Some 12
   \<and> claimedOffset (headerText (ascii ''256 256 3'' @ [0x0A] @ ascii ''A'' @ [0x0A])) 3 = None"
proof -
  have h: "headerText (ascii ''256 256 3'' @ [0x0A] @ ascii ''A'' @ [0x0A])
      = str ''256 256 3'' @ [NL] @ str ''A'' @ [NL]"
    by (simp add: headerText_def decode_ascii ascii_def str_def)
  show ?thesis unfolding h by code_simp
qed

text \<open>
  Claim C6, amended. Let the header text be made of lines that are not dimension lines,
  then a dimension line with the count \<open>N\<close> (below \<open>2 ^ 53\<close>, where the number that
  \<open>parseInt\<close> returns is the integer itself), then the complete lines \<open>ls\<close> and a rest;
  and let the first occurrence of the string \<open>256 256 N\<close> in the header text be the one
  in that dimension line. When \<open>ls\<close> are \<open>N\<close> lines, or fewer and no line feed
  follows them, the offset of the binary block is the position after the last of them;
  with \<open>N\<close> lines this is the offset of the specification. The texture indices, the
  heights and the start of the footer are all computed from this one offset.
\<close>

theorem binary_offset_located:
  assumes "headerText buffer
      = lines_of before @ (p0 @ dimString (Some (int n)) @ r0) @ [NL] @ lines_of ls @ rest"
    and "\<forall>l\<in>set before. NL \<notin> set l \<and> \<not> isDimLine l"
    and "isDimLine (p0 @ dimString (Some (int n)) @ r0)"
    and "parseInt (elemAt (split_ws (trim (p0 @ dimString (Some (int n)) @ r0))) 2) = Some (int n)"
    and "n < 2 ^ 53"
    and "NL \<notin> set p0" and "NL \<notin> set r0"
    and "indexOf (headerText buffer) (dimString (Some (int n))) 0
      = Some (length (lines_of before) + length p0)"
    and "\<forall>l\<in>set ls. NL \<notin> set l"
    and "length ls = n \<or> (length ls < n \<and> NL \<notin> set rest)"
  shows "(let off = length (lines_of before) + length (p0 @ dimString (Some (int n)) @ r0) + 1
              + length (lines_of ls)
     in findDim (split_on NL (headerText buffer)) = Some (Some (int n))
      \<and> locateBinary (headerText buffer) = Some off
      \<and> (length ls = n \<longrightarrow> claimedOffset (headerText buffer) n = Some off)
      \<and> textureIndices (parseSLK buffer) = extractTextureIndices buffer off
      \<and> heights (parseSLK buffer) = extractHeights buffer off
      \<and> objects (parseSLK buffer) = objects (footerAt buffer off)
      \<and> citadels (parseSLK buffer) = citadels (footerAt buffer off))"
proof -
  let ?D = "dimString (Some (int n))"
  let ?dl = "p0 @ ?D @ r0"
  let ?t = "headerText buffer"
  let ?off = "length (lines_of before) + length ?dl + 1 + length (lines_of ls)"
  have dlNL: "NL \<notin> set ?dl"
    using assms(6,7) dimString_no_NL [of n] by simp
  have lines: "split_on NL ?t = before @ ?dl # ls @ split_on NL rest"
    unfolding assms(1) using assms(2,9) dlNL by (intro header_lines) auto
  have dim: "findDim (split_on NL ?t) = Some (Some (int n))"
    using assms(2,3,4) by (simp add: lines findDim_skip)
  have shape: "drop (length (lines_of before) + length p0) ?t
      = ?D @ r0 @ [NL] @ lines_of ls @ rest"
    by (simp add: assms(1))
  have "locateBinary ?t = Some (length (lines_of before) + length p0 + length ?D + length r0 + 1
      + length (lines_of ls))"
    using dim assms(8) shape assms(7,9,10) by (rule locateBinary_lines)
  then have loc: "locateBinary ?t = Some ?off"
    by (simp add: add.assoc)
  have claimed: "claimedOffset ?t n = Some ?off" if "length ls = n"
  proof -
    have "claimedFrom n (before @ ?dl # ls @ split_on NL rest) 0
        = claimedFrom n (?dl # ls @ split_on NL rest) (0 + length (lines_of before))"
      using assms(2) by (intro claimedFrom_skip) auto
    also have "\<dots> = skipComplete (length (?dl # ls)) ((?dl # ls) @ split_on NL rest)
        (length (lines_of before))"
      using assms(3) that by simp
    also have "\<dots> = Some (length (lines_of before) + length (lines_of (?dl # ls)))"
      using split_on_not_Nil by (rule skipComplete_lines)
    finally show ?thesis
      by (simp add: claimedOffset_def lines lines_of_Cons add.assoc)
  qed
  show ?thesis
    unfolding Let_def using dim loc claimed parseSLK_located [OF loc] by blast
qed

lemma offset_example:
  "isDimLine ([] @ dimString (Some (int 2)) @ [CR])"
  "parseInt (elemAt (split_ws (trim ([] @ dimString (Some (int 2)) @ [CR]))) 2) = Some (int 2)"
  "indexOf (str ''x 256 256'' @ [NL] @ str ''256 256 2'' @ [CR, NL] @ str ''a.tga'' @ [CR, NL]
      @ str ''b.tga'' @ [CR, NL, 1, 2]) (dimString (Some (int 2))) 0 = Some 10"
  "\<not> isDimLine (str ''x 256 256'')"
  "dimString (Some (int 2)) = str ''256 256 2''"
  by code_simp+

theorem binary_offset_located_witness:
  "locateBinary (headerText (ascii ''x 256 256'' @ [0x0A] @ ascii ''256 256 2'' @ [0x0D, 0x0A]
      @ ascii ''a.tga'' @ [0x0D, 0x0A] @ ascii ''b.tga'' @ [0x0D, 0x0A, 1, 2])) = Some 35
   \<and> claimedOffset (headerText (ascii ''x 256 256'' @ [0x0A] @ ascii ''256 256 2'' @ [0x0D, 0x0A]
      @ ascii ''a.tga'' @ [0x0D, 0x0A] @ ascii ''b.tga'' @ [0x0D, 0x0A, 1, 2])) 2 = Some 35
   \<and> textureIndices (parseSLK (ascii ''x 256 256'' @ [0x0A] @ ascii ''256 256 2'' @ [0x0D, 0x0A]
      @ ascii ''a.tga'' @ [0x0D, 0x0A] @ ascii ''b.tga'' @ [0x0D, 0x0A, 1, 2]))
     = extractTextureIndices (ascii ''x 256 256'' @ [0x0A] @ ascii ''256 256 2'' @ [0x0D, 0x0A]
      @ ascii ''a.tga'' @ [0x0D, 0x0A] @ ascii ''b.tga'' @ [0x0D, 0x0A, 1, 2]) 35"
proof -
  let ?B = "ascii ''x 256 256'' @ [0x0A] @ ascii ''256 256 2'' @ [0x0D, 0x0A]
      @ ascii ''a.tga'' @ [0x0D, 0x0A] @ ascii ''b.tga'' @ [0x0D, 0x0A, 1, 2]"
  let ?ls = "[str ''a.tga'' @ [CR], str ''b.tga'' @ [CR]]"
  have h: "headerText ?B = str ''x 256 256'' @ [NL] @ str ''256 256 2'' @ [CR, NL]
      @ str ''a.tga'' @ [CR, NL] @ str ''b.tga'' @ [CR, NL, 1, 2]"
    by (simp add: headerText_def decode_ascii ascii_def str_def)
  have a: "headerText ?B = lines_of [str ''x 256 256'']
      @ ([] @ dimString (Some (int 2)) @ [CR]) @ [NL] @ lines_of ?ls @ [1, 2]"
    unfolding h offset_example(5) by (simp add: lines_of_def)
  have b: "\<forall>l\<in>set [str ''x 256 256'']. NL \<notin> set l \<and> \<not> isDimLine l"
    using offset_example(4) by (simp add: str_def)
  have e: "(2::nat) < 2 ^ 53" by simp
  have f: "NL \<notin> set ([] :: jsstr)" by simp
  have g: "NL \<notin> set [CR]" by simp
  have i: "indexOf (headerText ?B) (dimString (Some (int 2))) 0
      = Some (length (lines_of [str ''x 256 256'']) + length ([] :: jsstr))"
    unfolding h using offset_example(3) by (simp add: lines_of_def str_def)
  have j: "\<forall>l\<in>set ?ls. NL \<notin> set l"
    by (simp add: str_def)
  have k: "length ?ls = 2 \<or> (length ?ls < 2 \<and> NL \<notin> set [1, 2])"
    by simp
  have o: "length (lines_of [str ''x 256 256'']) + length ([] @ dimString (Some (int 2)) @ [CR])
      + 1 + length (lines_of ?ls) = 35"
    unfolding offset_example(5) by (simp add: lines_of_def str_def)
  show ?thesis
    using binary_offset_located [OF a b offset_example(1) offset_example(2) e f g i j k]
    unfolding Let_def o by simp
qed

section \<open>A header followed by zero bytes\<close>

lemma unat_ucast_byte_eq: "unat (ucast (b :: byte) :: 16 word) = unat b"
proof -
  have "unat b < 2 ^ 16"
    using unsigned_less [of b, where ?'a = nat] by simp
  then have "take_bit 16 (unat b) = unat b"
    by (rule take_bit_nat_eq_self)
  then show ?thesis by (simp add: unsigned_ucast_eq)
qed

lemma ucast_byte_NL: "(ucast (b :: byte) :: 16 word) = NL \<longleftrightarrow> b = 0x0A"
proof
  assume "(ucast b :: 16 word) = NL"
  then have "unat (ucast b :: 16 word) = unat (NL :: 16 word)" by (rule arg_cong)
  then have "unat b = unat (0x0A :: byte)" by (simp add: unat_ucast_byte_eq)
  then show "b = 0x0A" by (simp only: word_unat_eq_iff)
qed simp

lemma indexOf_prefix: "p \<noteq> [] \<Longrightarrow> indexOf (p @ s) p 0 = Some 0"
  by (cases p) (simp_all add: indexOf_def startsWith_def)

lemma startsWith_cut:
  assumes "startsWith (a @ c # s) p" "c \<notin> set p"
  shows "startsWith a p"
proof (cases "length p \<le> length a")
  case True
  with assms(1) show ?thesis by (simp add: startsWith_def)
next
  case False
  then have "take (length p) (a @ c # s) = a @ take (length p - length a) (c # s)"
    by simp
  moreover from False obtain k where "length p - length a = Suc k"
    by (cases "length p - length a") auto
  ultimately have "p = a @ c # take k s"
    using assms(1) by (simp add: startsWith_def)
  then have "c \<in> set p" by (metis in_set_conv_decomp)
  with assms(2) show ?thesis by simp
qed

lemma findSub_None_index: "findSub p s i = None \<Longrightarrow> findSub p s j = None"
  by (induction s arbitrary: i j) (auto split: if_splits)

lemma findSub_skip_line:
  assumes "findSub p l 0 = None" "c \<notin> set p"
  shows "findSub p (l @ c # s) i = findSub p s (i + length l + 1)"
  using assms(1)
proof (induction l arbitrary: i)
  case Nil
  then have "p \<noteq> []" by (auto split: if_splits)
  with assms(2) have "\<not> startsWith (c # s) p"
    by (cases p) (auto simp: startsWith_def)
  then show ?case by simp
next
  case (Cons x xs)
  from Cons.prems have a: "\<not> startsWith (x # xs) p" and b: "findSub p xs (Suc 0) = None"
    by (auto split: if_splits)
  from a assms(2) have "\<not> startsWith ((x # xs) @ c # s) p"
    using startsWith_cut by blast
  moreover have "findSub p xs 0 = None"
    using b by (rule findSub_None_index)
  ultimately show ?case
    using Cons.IH [of "Suc i"] by simp
qed

lemma findSub_skip_lines:
  assumes "\<forall>l\<in>set ls. findSub p l 0 = None" "NL \<notin> set p"
  shows "findSub p (lines_of ls @ s) i = findSub p s (i + length (lines_of ls))"
  using assms(1)
proof (induction ls arbitrary: i)
  case Nil
  show ?case by (simp add: lines_of_def)
next
  case (Cons l ls)
  have "findSub p (lines_of (l # ls) @ s) i = findSub p (l @ NL # (lines_of ls @ s)) i"
    by (simp add: lines_of_def)
  also have "\<dots> = findSub p (lines_of ls @ s) (i + length l + 1)"
    using Cons.prems assms(2) by (intro findSub_skip_line) auto
  also have "\<dots> = findSub p s (i + length l + 1 + length (lines_of ls))"
    using Cons.prems by (intro Cons.IH) auto
  finally show ?case by (simp add: lines_of_def add.assoc)
qed

lemma indexOf_after_lines:
  assumes "\<forall>l\<in>set ls. indexOf l p 0 = None" "NL \<notin> set p" "p \<noteq> []"
  shows "indexOf (lines_of ls @ p @ s) p 0 = Some (length (lines_of ls))"
proof -
  have "\<forall>l\<in>set ls. findSub p l 0 = None"
    using assms(1) by (simp add: indexOf_def)
  then have "findSub p (lines_of ls @ p @ s) 0 = findSub p (p @ s) (0 + length (lines_of ls))"
    using assms(2) by (rule findSub_skip_lines)
  also have "\<dots> = Some (length (lines_of ls))"
    using assms(3) by (cases p) (simp_all add: startsWith_def)
  finally show ?thesis by (simp add: indexOf_def)
qed

lemma zero_line_footer:
  assumes "0 < j"
  shows "parseFooter mn (replicate j 0) = footerInit"
proof -
  from assms obtain k where j: "j = Suc k" by (cases j) auto
  have t: "trim (replicate j 0) = replicate j 0"
    using assms by (intro trim_fixed) (simp_all add: isWhiteSpace_def)
  have "footerLine mn footerInit (replicate j 0) = footerInit"
    by (simp add: footerLine_def t Let_def) (simp add: j startsWith_def str_def footerInit_def)
  moreover have "split_on NL (replicate j (0 :: jschar)) = [replicate j 0]"
    by (intro split_on_no_sep) simp
  moreover have "flush footerInit = footerInit"
    by (simp add: flush_def footerInit_def)
  ultimately show ?thesis by (simp add: parseFooter_def)
qed

lemma le16_zero: "le16 0 0 = 0"
  by (simp add: le16_def)

lemma decode_zeros: "decode (replicate j 0) = replicate j 0"
proof -
  have "decode (replicate j (0 :: byte)) = map ucast (replicate j (0 :: byte))"
    by (rule decode_ascii) simp
  then show ?thesis by simp
qed

lemma zero_tail_result:
  assumes "locateBinary (headerText (hdr @ replicate m 0)) = Some (length hdr)"
  shows "textureIndices (parseSLK (hdr @ replicate m 0)) = replicate (256 * 256) 0
    \<and> heights (parseSLK (hdr @ replicate m 0)) = replicate (256 * 256) 0
    \<and> objects (parseSLK (hdr @ replicate m 0)) = []
    \<and> citadels (parseSLK (hdr @ replicate m 0)) = []"
proof -
  let ?b = "hdr @ replicate m (0 :: byte)"
  note res = parseSLK_located [OF assms]
  have cell: "?b ! (length hdr + j) = 0" if "length hdr + j < length ?b" for j
    using that by (simp add: nth_append)
  have "extractTextureIndices ?b (length hdr) ! i = 0" if "i < 65536" for i
    using that cell [of "i * 6"] cell [of "i * 6 + 1"]
    by (simp add: extractTextureIndices_nth le16_zero add.assoc)
  then have t: "extractTextureIndices ?b (length hdr) = replicate (256 * 256) 0"
    by (intro nth_equalityI) (simp_all add: extractTextureIndices_length)
  have "extractHeights ?b (length hdr) ! i = 0" if "i < 65536" for i
    using that cell [of "5 * 65536 + (i div 256) * 257 + i mod 256"]
    by (simp add: extractHeights_nth add.assoc)
  then have h: "extractHeights ?b (length hdr) = replicate (256 * 256) 0"
    by (intro nth_equalityI) (simp_all add: extractHeights_length)
  have f: "footerAt ?b (length hdr) = footerInit"
  proof (cases "length hdr + 256 * 256 * 6 < length ?b")
    case True
    then have "0 < m - 256 * 256 * 6" by simp
    moreover have "drop (length hdr + 256 * 256 * 6) ?b = replicate (m - 256 * 256 * 6) 0"
      by simp
    ultimately show ?thesis
      using True by (simp add: footerAt_def decode_zeros zero_line_footer)
  next
    case False
    then show ?thesis by (simp add: footerAt_def)
  qed
  show ?thesis
    using res by (simp add: t h f footerInit_def)
qed

lemma ucast_byteLines: "map ucast (byteLines ls) = lines_of (map (map ucast) ls)"
  by (induction ls) (simp_all add: byteLines_def lines_of_def)

lemma dim3:
  "dimString (Some 3) = str ''256 256 3''"
  "isDimLine (str ''256 256 3'')"
  "parseInt (elemAt (split_ws (trim (str ''256 256 3''))) 2) = Some 3"
  "isDimLine (str ''256 256 3'' @ [CR])"
  "parseInt (elemAt (split_ws (trim (str ''256 256 3'' @ [CR]))) 2) = Some 3"
  by code_simp+

lemma header_located:
  assumes ascii: "\<forall>l\<in>set (before @ textures). \<forall>b\<in>set l. b \<le> 0x7F \<and> b \<noteq> 0x0A"
    and before: "\<forall>l\<in>set before. \<not> isDimLine (map ucast l)
        \<and> indexOf (map ucast l) (str ''256 256 3'') 0 = None"
    and r0: "r0 = [] \<or> r0 = [0x0D]"
    and three: "length textures = 3"
    and window: "length (compositeHeader before r0 textures) \<le> 50000"
  shows "locateBinary (headerText (compositeHeader before r0 textures @ replicate m 0))
    = Some (length (compositeHeader before r0 textures))"
proof -
  let ?hdr = "compositeHeader before r0 textures"
  let ?pus = "map (map ucast) before :: jsstr list"
  let ?tus = "map (map ucast) textures :: jsstr list"
  let ?r = "map ucast r0 :: jsstr"
  let ?D = "str ''256 256 3''"
  let ?Z = "replicate (min (50000 - length ?hdr) m) (0 :: jschar)"
  let ?t = "lines_of ?pus @ ?D @ ?r @ [NL] @ lines_of ?tus @ ?Z"
  have lines7: "\<forall>b\<in>set (byteLines ls). b \<le> 0x7F" if "\<forall>l\<in>set ls. \<forall>b\<in>set l. b \<le> 0x7F \<and> b \<noteq> 0x0A"
    for ls using that by (auto simp: byteLines_def)
  have r7: "\<forall>b\<in>set r0. b \<le> 0x7F" using r0 by auto
  have hdr7: "\<forall>b\<in>set ?hdr. b \<le> 0x7F"
    using lines7 [of before] lines7 [of textures] ascii r7
    by (auto simp: compositeHeader_def ascii_def)
  have "take 50000 (?hdr @ replicate m 0) = ?hdr @ replicate (min (50000 - length ?hdr) m) 0"
    using window by simp
  moreover have "\<forall>b\<in>set (?hdr @ replicate (min (50000 - length ?hdr) m) 0). b \<le> 0x7F"
    using hdr7 by auto
  ultimately have "headerText (?hdr @ replicate m 0)
      = map ucast (?hdr @ replicate (min (50000 - length ?hdr) m) 0)"
    by (simp add: headerText_def decode_ascii)
  also have "\<dots> = ?t"
    by (simp add: compositeHeader_def ucast_byteLines ascii_def str_def)
  finally have t: "headerText (?hdr @ replicate m 0) = ?t" .
  have noNL: "\<forall>l\<in>set (?pus @ ?tus). NL \<notin> set l"
  proof
    fix l assume "l \<in> set (?pus @ ?tus)"
    then obtain k where k: "k \<in> set (before @ textures)" "l = map ucast k" by auto
    with ascii have "\<forall>b\<in>set k. b \<noteq> 0x0A" by blast
    then show "NL \<notin> set l" using k(2) by (auto simp: ucast_byte_NL)
  qed
  have rr: "?r = [] \<or> ?r = [CR]" using r0 by auto
  have rNL: "NL \<notin> set (?D @ ?r)"
    using rr by (auto simp: str_def)
  have "split_on NL ?t = ?pus @ split_on NL ((?D @ ?r) @ NL # (lines_of ?tus @ ?Z))"
    using noNL unfolding lines_of_def by (subst split_on_lines) auto
  also have "\<dots> = ?pus @ (?D @ ?r) # split_on NL (lines_of ?tus @ ?Z)"
    using rNL split_on_sep [of NL "?D @ ?r" "lines_of ?tus @ ?Z"] by simp
  finally have "findDim (split_on NL ?t) = findDim ((?D @ ?r) # split_on NL (lines_of ?tus @ ?Z))"
    using before by (simp add: findDim_skip)
  also have "\<dots> = Some (Some (int 3))"
    using rr dim3 by auto
  finally have dim: "findDim (split_on NL ?t) = Some (Some (int 3))" .
  have d3: "dimString (Some (int 3)) = ?D"
    using dim3(1) by simp
  have "indexOf (lines_of ?pus @ ?D @ (?r @ [NL] @ lines_of ?tus @ ?Z)) ?D 0
      = Some (length (lines_of ?pus))"
    using before by (intro indexOf_after_lines) (auto simp: str_def)
  then have first: "indexOf ?t (dimString (Some (int 3))) 0 = Some (length (lines_of ?pus))"
    unfolding d3 by simp
  have shape: "drop (length (lines_of ?pus)) ?t
      = dimString (Some (int 3)) @ ?r @ [NL] @ lines_of ?tus @ ?Z"
    unfolding d3 by simp
  have rn: "NL \<notin> set ?r" using rr by auto
  have tn: "\<forall>l\<in>set ?tus. NL \<notin> set l" using noNL by auto
  have cnt: "length ?tus = 3 \<or> (length ?tus < 3 \<and> NL \<notin> set ?Z)"
    using three by simp
  have "locateBinary ?t = Some (length (lines_of ?pus) + length (dimString (Some (int 3)))
      + length ?r + 1 + length (lines_of ?tus))"
    using dim first shape rn tn cnt by (rule locateBinary_lines)
  moreover have "length (lines_of ?pus) + length (dimString (Some (int 3)))
      + length ?r + 1 + length (lines_of ?tus) = length ?hdr"
    unfolding d3
    by (simp add: compositeHeader_def str_def ascii_def ucast_byteLines [symmetric])
  ultimately show ?thesis by (simp only: t)
qed

text \<open>
  Where the code does return zeros. Let the header be ASCII text within the first 50000
  bytes: some lines, none of them a dimension line or containing the string
  \<open>256 256 3\<close>, then the dimension line \<open>256 256 3\<close> (ended by a line feed, or by a
  carriage return and a line feed), then exactly three lines of the texture list. When all
  the remaining bytes are zero, however many there are, \<open>parseSLK\<close> yields zero texture
  indices, zero heights, no objects and no citadels.
\<close>

lemma zero_block_gives_zero_terrain:
  assumes "\<forall>l\<in>set (before @ textures). \<forall>b\<in>set l. b \<le> 0x7F \<and> b \<noteq> 0x0A"
    and "\<forall>l\<in>set before. \<not> isDimLine (map ucast l)
        \<and> indexOf (map ucast l) (str ''256 256 3'') 0 = None"
    and "r0 = [] \<or> r0 = [0x0D]"
    and "length textures = 3"
    and "length (compositeHeader before r0 textures) \<le> 50000"
  shows "textureIndices (parseSLK (compositeHeader before r0 textures @ replicate m 0))
       = replicate (256 * 256) 0
    \<and> heights (parseSLK (compositeHeader before r0 textures @ replicate m 0))
       = replicate (256 * 256) 0
    \<and> objects (parseSLK (compositeHeader before r0 textures @ replicate m 0)) = []
    \<and> citadels (parseSLK (compositeHeader before r0 textures @ replicate m 0)) = []"
  using header_located [OF assms] by (rule zero_tail_result)

lemma zero_block_example:
  "\<not> isDimLine (str ''models/tank.sdf 33'')"
  "indexOf (str ''models/tank.sdf 33'') (str ''256 256 3'') 0 = None"
  by code_simp+

lemma zero_block_gives_zero_terrain_example:
  "length (compositeHeader [ascii ''models/tank.sdf 33''] [0x0D]
       [ascii ''grass.tga'', ascii ''rock.tga'', ascii ''sand.tga'']) = 58
   \<and> textureIndices (parseSLK (compositeHeader [ascii ''models/tank.sdf 33''] [0x0D]
       [ascii ''grass.tga'', ascii ''rock.tga'', ascii ''sand.tga''] @ replicate 400000 0))
     = replicate (256 * 256) 0
   \<and> heights (parseSLK (compositeHeader [ascii ''models/tank.sdf 33''] [0x0D]
       [ascii ''grass.tga'', ascii ''rock.tga'', ascii ''sand.tga''] @ replicate 400000 0))
     = replicate (256 * 256) 0
   \<and> objects (parseSLK (compositeHeader [ascii ''models/tank.sdf 33''] [0x0D]
       [ascii ''grass.tga'', ascii ''rock.tga'', ascii ''sand.tga''] @ replicate 400000 0)) = []
   \<and> citadels (parseSLK (compositeHeader [ascii ''models/tank.sdf 33''] [0x0D]
       [ascii ''grass.tga'', ascii ''rock.tga'', ascii ''sand.tga''] @ replicate 400000 0)) = []"
proof -
  have a: "\<forall>l\<in>set ([ascii ''models/tank.sdf 33'']
        @ [ascii ''grass.tga'', ascii ''rock.tga'', ascii ''sand.tga'']).
      \<forall>b\<in>set l. b \<le> 0x7F \<and> b \<noteq> 0x0A"
    by (simp add: ascii_def)
  have "map ucast (ascii ''models/tank.sdf 33'') = str ''models/tank.sdf 33''"
    by (simp add: ascii_def str_def)
  then have b: "\<forall>l\<in>set [ascii ''models/tank.sdf 33'']. \<not> isDimLine (map ucast l)
        \<and> indexOf (map ucast l) (str ''256 256 3'') 0 = None"
    using zero_block_example by simp
  have c: "[0x0D] = [] \<or> [0x0D :: byte] = [0x0D]" by simp
  have d: "length [ascii ''grass.tga'', ascii ''rock.tga'', ascii ''sand.tga''] = 3" by simp
  have l: "length (compositeHeader [ascii ''models/tank.sdf 33''] [0x0D]
       [ascii ''grass.tga'', ascii ''rock.tga'', ascii ''sand.tga'']) = 58"
    by (simp add: compositeHeader_def byteLines_def ascii_def)
  then have e: "length (compositeHeader [ascii ''models/tank.sdf 33''] [0x0D]
       [ascii ''grass.tga'', ascii ''rock.tga'', ascii ''sand.tga'']) \<le> 50000"
    by simp
  from zero_block_gives_zero_terrain [OF a b c d e, of 400000] l show ?thesis
    by blast
qed

lemma indexOf_second: "p \<noteq> [] \<Longrightarrow> x \<noteq> hd p \<Longrightarrow> indexOf (x # p @ r) p 0 = Some 1"
  by (cases p) (simp_all add: indexOf_def startsWith_def)

lemma earlier_line_example: "\<not> isDimLine (str ''1256 256 30 x'')"
  by code_simp

text \<open>
  Claim C7 on a header that contains the dimension line \<open>256 256 3\<close>, followed by the
  three texture lines \<open>a\<close>, \<open>b\<close>, \<open>c\<close> and a block of \<open>65536 * 6\<close> zero bytes, and that
  has the line \<open>1256 256 30 x\<close> before the dimension line. The dimension line is found,
  with the count 3, but the search for the string \<open>256 256 3\<close> stops inside the earlier
  line: the offset is 28, two bytes before the block, and the first texture index is read
  from the bytes of \<open>c\<close> and the line feed, where the claim says zero.
\<close>

theorem earlier_occurrence_misplaces_block:
  "findDim (split_on NL (headerText (ascii ''1256 256 30 x'' @ [0x0A] @ ascii ''256 256 3'' @ [0x0A]
      @ ascii ''a'' @ [0x0A] @ ascii ''b'' @ [0x0A] @ ascii ''c'' @ [0x0A]
      @ replicate (65536 * 6) 0))) = Some (Some 3)
   \<and> locateBinary (headerText (ascii ''1256 256 30 x'' @ [0x0A] @ ascii ''256 256 3'' @ [0x0A]
      @ ascii ''a'' @ [0x0A] @ ascii ''b'' @ [0x0A] @ ascii ''c'' @ [0x0A]
      @ replicate (65536 * 6) 0)) = Some 28
   \<and> textureIndices (parseSLK (ascii ''1256 256 30 x'' @ [0x0A] @ ascii ''256 256 3'' @ [0x0A]
      @ ascii ''a'' @ [0x0A] @ ascii ''b'' @ [0x0A] @ ascii ''c'' @ [0x0A]
      @ replicate (65536 * 6) 0)) ! 0 = 2659"
proof -
  let ?B = "ascii ''1256 256 30 x'' @ [0x0A] @ ascii ''256 256 3'' @ [0x0A]
      @ ascii ''a'' @ [0x0A] @ ascii ''b'' @ [0x0A] @ ascii ''c'' @ [0x0A]
      @ replicate (65536 * 6) (0 :: byte)"
  let ?Z = "replicate 49970 (0 :: jschar)"
  let ?D = "str ''256 256 3''"
  let ?t = "headerText ?B"
  have d3: "dimString (Some (int 3)) = ?D"
    using dim3(1) by simp
  have h: "?t = 0x31 # ?D @ (str ''0 x'' @ [NL] @ lines_of [?D, str ''a'', str ''b'']
      @ str ''c'' @ [NL] @ ?Z)"
    by (simp add: headerText_def decode_ascii ascii_def str_def lines_of_def)
  have "?t = lines_of [str ''1256 256 30 x''] @ ?D @ [NL]
      @ lines_of [str ''a'', str ''b'', str ''c''] @ ?Z"
    unfolding h by (simp add: str_def lines_of_def)
  moreover have "split_on NL (lines_of [str ''1256 256 30 x''] @ ?D @ [NL]
      @ lines_of [str ''a'', str ''b'', str ''c''] @ ?Z)
      = [str ''1256 256 30 x''] @ ?D # [str ''a'', str ''b'', str ''c''] @ split_on NL ?Z"
    by (rule header_lines) (simp_all add: str_def)
  ultimately have "findDim (split_on NL ?t) = Some (Some 3)"
    using earlier_line_example dim3(2,3) by simp
  then have dim: "findDim (split_on NL ?t) = Some (Some (int 3))"
    by simp
  have first: "indexOf ?t (dimString (Some (int 3))) 0 = Some 1"
    unfolding h d3 by (rule indexOf_second) (simp_all add: str_def)
  have shape: "drop 1 ?t = dimString (Some (int 3)) @ str ''0 x'' @ [NL]
      @ lines_of [?D, str ''a'', str ''b''] @ (str ''c'' @ [NL] @ ?Z)"
    unfolding h d3 by simp
  have "locateBinary ?t = Some (1 + length (dimString (Some (int 3))) + length (str ''0 x'') + 1
      + length (lines_of [?D, str ''a'', str ''b'']))"
    using dim first shape by (rule locateBinary_lines) (simp_all add: str_def)
  then have loc: "locateBinary ?t = Some 28"
    unfolding d3 by (simp add: str_def lines_of_def)
  have "?B ! 28 = 0x63" "?B ! 29 = 0x0A" "28 + 0 * 6 + 2 \<le> length ?B"
    by (simp_all add: ascii_def nth_append)
  then have "extractTextureIndices ?B 28 ! 0 = 2659"
    by (simp add: extractTextureIndices_nth le16_def)
  with parseSLK_located [OF loc] have "textureIndices (parseSLK ?B) ! 0 = 2659"
    by simp
  with dim loc show ?thesis by simp
qed

section \<open>Heights of the composite file are single bytes\<close>

lemma unat_ucast_byte: "unat (ucast (b :: byte) :: 16 word) \<le> 255"
proof -
  have "unat b < 256"
    using unsigned_less [of b, where ?'a = nat] by simp
  moreover have "unat (ucast b :: 16 word) = take_bit 16 (unat b)"
    by (simp add: unsigned_ucast_eq)
  moreover have "take_bit 16 (unat b) \<le> unat b"
    by (rule take_bit_nat_less_eq_self)
  ultimately show ?thesis by linarith
qed

lemma slk_height_cell:
  assumes "i < 65536"
  shows "unat (heights (parseSLK buffer) ! i) \<le> 255"
proof (cases "locateBinary (headerText buffer)")
  case None
  with assms show ?thesis
    by (simp add: parseSLK_None slkDefault_def zeroGrid_nth)
next
  case (Some off)
  with assms show ?thesis
    by (simp add: parseSLK_Some extractHeights_nth unat_ucast_byte)
qed

text \<open>
  Claim C10. Every cell of the array \<open>heights\<close> returned by \<open>parseSLK\<close> is at most 255:
  a cell is 0 or one byte of layer 5 of the buffer, widened to 16 bits. \<open>parseDPH\<close> reads
  two bytes for a cell, little-endian, and so reaches values above 255.
\<close>

theorem slk_heights_single_byte:
  "(\<forall>i<65536. unat (heights (parseSLK buffer) ! i) \<le> 255)
   \<and> (\<forall>i<65536. \<forall>off. locateBinary (headerText buffer) = Some off \<longrightarrow>
         heights (parseSLK buffer) ! i =
           (if off + 5 * 65536 + (i div 256) * 257 + i mod 256 < length buffer
            then ucast (buffer ! (off + 5 * 65536 + (i div 256) * 257 + i mod 256)) else 0))
   \<and> (\<forall>i<65536. i * 2 + 1 < length b \<longrightarrow>
         parseDPH b ! i = le16 (b ! (i * 2)) (b ! (i * 2 + 1)))
   \<and> unat (parseDPH [0, 1] ! 0) = 256"
  by (simp add: slk_height_cell parseSLK_Some extractHeights_nth parseDPH_nth le16_def)

lemma height_example:
  "locateBinary (headerText (compositeHeader [] [] [ascii ''a'', ascii ''b'', ascii ''c'']
      @ replicate 327680 0 @ [200])) = Some 16"
  "length (compositeHeader [] [] [ascii ''a'', ascii ''b'', ascii ''c'']) = 16"
proof -
  let ?hdr = "compositeHeader [] [] [ascii ''a'', ascii ''b'', ascii ''c'']"
  show l: "length ?hdr = 16"
    by (simp add: compositeHeader_def byteLines_def ascii_def)
  have "headerText (?hdr @ replicate 327680 0 @ [200]) = headerText (?hdr @ replicate 327680 0)"
    by (simp add: headerText_def l)
  moreover have "locateBinary (headerText (?hdr @ replicate 327680 0)) = Some (length ?hdr)"
    by (rule header_located) (simp_all add: l, simp add: ascii_def)
  ultimately show "locateBinary (headerText (?hdr @ replicate 327680 0 @ [200])) = Some 16"
    by (simp add: l)
qed

theorem slk_heights_single_byte_witness:
  "unat (heights (parseSLK (compositeHeader [] [] [ascii ''a'', ascii ''b'', ascii ''c'']
      @ replicate 327680 0 @ [200])) ! 0) \<le> 255
   \<and> heights (parseSLK (compositeHeader [] [] [ascii ''a'', ascii ''b'', ascii ''c'']
      @ replicate 327680 0 @ [200])) ! 0 = 200
   \<and> parseDPH [0x34, 0x12] ! 0 = 0x1234"
proof -
  let ?b = "compositeHeader [] [] [ascii ''a'', ascii ''b'', ascii ''c'']
      @ replicate 327680 0 @ [200]"
  have "parseDPH [0x34, 0x12] ! 0 = le16 0x34 0x12"
    using slk_heights_single_byte [of ?b "[0x34, 0x12]"] by simp
  then have d: "parseDPH [0x34, 0x12] ! 0 = 0x1234"
    by (simp add: le16_def)
  have "?b ! (16 + 5 * 65536) = 200"
    by (simp add: nth_append height_example(2))
  moreover have "16 + 5 * 65536 < length ?b"
    by (simp add: height_example(2))
  ultimately have h: "heights (parseSLK ?b) ! 0 = 200"
    using slk_heights_single_byte [of ?b "[]"] height_example(1) by simp
  show ?thesis
    using slk_heights_single_byte [of ?b "[]"] h d by simp
qed

end
